theory Spec2Isabelle
  imports Main "HOL-Library.Multiset" "HOL-Library.Product_Lexorder"
begin

section \<open>Data model of the day layout (src/js/app.js)\<close>

text \<open>
  An id is used by the source only as a property key (\<open>eventIdxById[event.id]\<close>,
  \<open>eventsGroups[eventAtTopId]\<close>) and under \<open>==\<close>. It is modelled by the key that it
  names: \<open>Num n\<close> for the number \<open>n\<close>, \<open>Name s\<close> for a string \<open>s\<close> that is not the
  numeral of such a number, so that two ids are \<open>==\<close> exactly when they are the same key.
\<close>

datatype js_id = Num nat | Name string

text \<open>
  The hashes \<open>eventIdxById\<close> and \<open>eventsGroups\<close> are plain objects (\<open>{}\<close>): a read of a
  key that the hash does not own goes on to \<open>Object.prototype\<close>, which holds a function
  or an object, hence a truthy value, under each of the following names.
\<close>

definition prototypeKeys :: "string list" where
  "prototypeKeys =
     [''constructor'', ''toString'', ''toLocaleString'', ''valueOf'', ''hasOwnProperty'',
      ''isPrototypeOf'', ''propertyIsEnumerable'', ''__proto__'', ''__defineGetter__'',
      ''__defineSetter__'', ''__lookupGetter__'', ''__lookupSetter__'']"

fun inherited :: "js_id \<Rightarrow> bool" where
  "inherited (Num n) = False"
| "inherited (Name s) = (s \<in> set prototypeKeys)"

text \<open>
  An event object carries an id and two minute offsets. The field \<open>end\<close> is written
  \<open>ev_end\<close>, and the other fields take the same prefix where the source's name is also
  the name of a local variable.
\<close>

record event =
  ev_id :: js_id
  ev_start :: int
  ev_end :: int

record placed = event +
  ev_left :: int
  ev_width :: int

text \<open>The working object built by \<open>cloneEvents\<close>; \<open>topEventId\<close> is \<open>null\<close> (None) at first.\<close>

record wevent = placed +
  collisions :: "nat list"
  hasEventUnder :: bool
  topEventId :: "js_id option"

text \<open>The key under which a \<open>topEventId\<close> is looked up: \<open>null\<close> reads the property
  \<open>"null"\<close>.\<close>

definition propKey :: "js_id option \<Rightarrow> js_id" where
  "propKey t = (case t of None \<Rightarrow> Name ''null'' | Some k \<Rightarrow> k)"

text \<open>The object built by \<open>normalizeEvents\<close>.\<close>

record oevent = placed +
  ev_top :: int

text \<open>
  The argument of \<open>layOutDay\<close> is any value: something that is no array, or an array
  whose elements are event objects or falsy values (\<open>null\<close>, \<open>undefined\<close>), the latter
  written None.
\<close>

datatype js_arg = NotArray | JsArray "event option list"

text \<open>
  \<open>InvalidInput\<close> is the source's \<open>Error('Events must be an array')\<close>; \<open>TypeError\<close> is
  what a property read on \<open>undefined\<close> throws.
\<close>

datatype error = InvalidInput | TypeError

section \<open>The operations\<close>

subsection \<open>isEventsCollides\<close>

definition isEventsCollides :: "'a event_scheme \<Rightarrow> 'b event_scheme \<Rightarrow> bool" where
  "isEventsCollides a b \<longleftrightarrow>
     (ev_end a > ev_start b \<and> ev_end a \<le> ev_end b)
   \<or> (ev_start a \<ge> ev_start b \<and> ev_start a < ev_end b)
   \<or> (ev_start a < ev_start b \<and> ev_end a > ev_end b)"

subsection \<open>cloneEvents\<close>

text \<open>The loop \<open>for (; (event = _events[i]); ++i)\<close> stops at the end of the array or at
  the first falsy element.\<close>

fun cloneEvents_loop :: "event option list \<Rightarrow> wevent list \<Rightarrow> wevent list" where
  "cloneEvents_loop [] clonedEvents = clonedEvents"
| "cloneEvents_loop (None # rest) clonedEvents = clonedEvents"
| "cloneEvents_loop (Some e # rest) clonedEvents =
     cloneEvents_loop rest (clonedEvents @
       [\<lparr>ev_id = ev_id e, ev_start = ev_start e, ev_end = ev_end e,
         ev_left = 0, ev_width = 0,
         collisions = [], hasEventUnder = False, topEventId = None\<rparr>])"

definition cloneEvents :: "js_arg \<Rightarrow> error + wevent list" where
  "cloneEvents a =
     (case a of
        NotArray \<Rightarrow> Inl InvalidInput
      | JsArray es \<Rightarrow> Inr (cloneEvents_loop es []))"

subsection \<open>normalizeEvents\<close>

text \<open>A list of working objects has no falsy element, so the loop visits all of it.\<close>

fun normalizeEvents_loop :: "wevent list \<Rightarrow> oevent list \<Rightarrow> oevent list" where
  "normalizeEvents_loop [] normalizedEvents = normalizedEvents"
| "normalizeEvents_loop (e # rest) normalizedEvents =
     normalizeEvents_loop rest (normalizedEvents @
       [\<lparr>ev_id = ev_id e, ev_start = ev_start e, ev_end = ev_end e,
         ev_left = ev_left e, ev_width = ev_width e, ev_top = ev_start e\<rparr>])"

definition normalizeEvents :: "wevent list \<Rightarrow> oevent list" where
  "normalizeEvents es = normalizeEvents_loop es []"

subsection \<open>compareStartEndTime and the sort\<close>

definition compareStartEndTime :: "'a event_scheme \<Rightarrow> 'b event_scheme \<Rightarrow> int" where
  "compareStartEndTime a b =
     (if ev_start a = ev_start b
      then (if ev_end a > ev_end b then -1 else 1)
      else if ev_start a > ev_start b then 1 else -1)"

text \<open>
  \<open>events.sort(compareStartEndTime)\<close> is the library's sort. It is modelled by a straight
  insertion sort driven by the comparator: each element in turn moves left past every
  element \<open>tmp\<close> of the sorted prefix with \<open>compareStartEndTime tmp element > 0\<close>. The
  prefix is held back to front, so that its last element is the head of the list.
\<close>

fun insertFromRight :: "wevent \<Rightarrow> wevent list \<Rightarrow> wevent list" where
  "insertFromRight element [] = [element]"
| "insertFromRight element (tmp # rest) =
     (if compareStartEndTime tmp element > 0
      then tmp # insertFromRight element rest
      else element # tmp # rest)"

definition sortEvents :: "wevent list \<Rightarrow> wevent list" where
  "sortEvents es = rev (foldl (\<lambda>prefix element. insertFromRight element prefix) [] es)"

subsection \<open>updateCollisions\<close>

definition pushCollision :: "nat \<Rightarrow> wevent \<Rightarrow> wevent" where
  "pushCollision j e = e\<lparr>collisions := collisions e @ [j]\<rparr>"

function updateCollisions_inner :: "wevent list \<Rightarrow> nat \<Rightarrow> nat \<Rightarrow> wevent list" where
  "updateCollisions_inner es i j =
     (if j < length es
      then updateCollisions_inner
             (if isEventsCollides (es ! i) (es ! j)
              then (es[i := pushCollision j (es ! i)])
                     [j := pushCollision i ((es[i := pushCollision j (es ! i)]) ! j)]
              else es) i (j + 1)
      else es)"
  by pat_completeness auto

termination
  by (relation "measure (\<lambda>(es, i, j). length es - j)") auto

declare updateCollisions_inner.simps [simp del]

lemma length_updateCollisions_inner [simp]:
  "length (updateCollisions_inner es i j) = length es"
  by (induction es i j rule: updateCollisions_inner.induct)
     (subst updateCollisions_inner.simps, simp)

function updateCollisions_outer :: "wevent list \<Rightarrow> nat \<Rightarrow> wevent list" where
  "updateCollisions_outer es i =
     (if i < length es - 1
      then updateCollisions_outer (updateCollisions_inner es i (i + 1)) (i + 1)
      else es)"
  by pat_completeness auto

termination
  by (relation "measure (\<lambda>(es, i). length es - i)") auto

declare updateCollisions_outer.simps [simp del]

definition updateCollisions :: "wevent list \<Rightarrow> wevent list" where
  "updateCollisions es = updateCollisions_outer (map (\<lambda>e. e\<lparr>collisions := []\<rparr>) es) 0"

subsection \<open>getLeftCollisionsCount\<close>

text \<open>\<open>_collisions[count]\<close> beyond the end is \<open>undefined\<close>, and \<open>undefined < n\<close> is false.\<close>

function getLeftCollisionsCount_loop :: "nat list \<Rightarrow> nat \<Rightarrow> nat \<Rightarrow> nat" where
  "getLeftCollisionsCount_loop cs eventIdx cnt =
     (if cnt < length cs \<and> cs ! cnt < eventIdx
      then getLeftCollisionsCount_loop cs eventIdx (cnt + 1)
      else cnt)"
  by pat_completeness auto

termination
  by (relation "measure (\<lambda>(cs, eventIdx, cnt). length cs - cnt)") auto

declare getLeftCollisionsCount_loop.simps [simp del]

definition getLeftCollisionsCount :: "nat list \<Rightarrow> nat \<Rightarrow> nat" where
  "getLeftCollisionsCount cs eventIdx = getLeftCollisionsCount_loop cs eventIdx 0"

lemma length_updateCollisions_outer [simp]:
  "length (updateCollisions_outer es i) = length es"
  by (induction es i rule: updateCollisions_outer.induct)
     (subst updateCollisions_outer.simps, simp)

lemma length_updateCollisions [simp]: "length (updateCollisions es) = length es"
  by (simp add: updateCollisions_def)

subsection \<open>getEventsUnder\<close>

text \<open>
  The inner loop \<open>for (j = start; j < i; ++j)\<close> looks for the first \<open>leftEvent\<close> that does
  not collide with the current event and has nothing under it yet; its body runs once, at
  that index, and leaves the loop.
\<close>

function getEventsUnder_inner :: "wevent list \<Rightarrow> nat \<Rightarrow> nat \<Rightarrow> nat option" where
  "getEventsUnder_inner es i j =
     (if j < i
      then (if \<not> isEventsCollides (es ! j) (es ! i) \<and> \<not> hasEventUnder (es ! j)
            then Some j
            else getEventsUnder_inner es i (j + 1))
      else None)"
  by pat_completeness auto

termination
  by (relation "measure (\<lambda>(es, i, j). i - j)") auto

declare getEventsUnder_inner.simps [simp del]

text \<open>\<open>_events.splice(i, 1)\<close> takes the element at index \<open>i\<close> out of the array.\<close>

definition splice1 :: "'a list \<Rightarrow> nat \<Rightarrow> 'a list" where
  "splice1 es i = take i es @ drop (Suc i) es"

text \<open>
  The outer loop, on the state \<open>(_events, eventsUnder, start, i)\<close>. After a removal the
  source decrements \<open>i\<close> and the loop header increments it again: the same index is
  looked at once more, in the shorter array.
\<close>

function getEventsUnder_loop ::
  "wevent list \<Rightarrow> wevent list \<Rightarrow> nat \<Rightarrow> nat \<Rightarrow> wevent list \<times> wevent list" where
  "getEventsUnder_loop es eventsUnder start i =
     (if i < length es
      then (if getLeftCollisionsCount (collisions (es ! i)) i \<noteq> 0
            then (case getEventsUnder_inner es i start of
                    Some j \<Rightarrow>
                      (let temp = (es ! i)\<lparr>topEventId := Some (ev_id (es ! j))\<rparr>;
                           es1 = splice1 es i;
                           es2 = es1[j := (es1 ! j)\<lparr>hasEventUnder := True\<rparr>]
                       in getEventsUnder_loop (updateCollisions es2) (eventsUnder @ [temp]) start i)
                  | None \<Rightarrow> getEventsUnder_loop es eventsUnder start (i + 1))
            else getEventsUnder_loop es eventsUnder i (i + 1))
      else (es, eventsUnder))"
  by pat_completeness auto

termination
  by (relation "measure (\<lambda>(es, eventsUnder, start, i). length es - i)")
     (auto simp: splice1_def)

declare getEventsUnder_loop.simps [simp del]

text \<open>Returns the array \<open>_events\<close> as the call leaves it, and the array \<open>eventsUnder\<close>.\<close>

definition getEventsUnder :: "wevent list \<Rightarrow> wevent list \<times> wevent list" where
  "getEventsUnder es =
     (case getEventsUnder_loop es [] 0 0 of
        (es', eventsUnder) \<Rightarrow>
          (es', if eventsUnder \<noteq> [] then updateCollisions eventsUnder else eventsUnder))"

subsection \<open>setLayOutParams\<close>

text \<open>\<open>x << 0\<close> is ToInt32 of \<open>x\<close>: the fraction is cut off and the integer wraps to 32 bits.
  A division by zero gives an infinity or NaN, which ToInt32 maps to 0.\<close>

definition toInt32 :: "int \<Rightarrow> int" where
  "toInt32 x = (x + 2 ^ 31) mod 2 ^ 32 - 2 ^ 31"

definition divShl0 :: "int \<Rightarrow> int \<Rightarrow> int" where
  "divShl0 a d = (if d = 0 then 0 else toInt32 (sgn a * sgn d * (\<bar>a\<bar> div \<bar>d\<bar>)))"

text \<open>The loop \<open>for (k = start; k < i; ++k)\<close>, on the state \<open>(_events, left, k)\<close>.\<close>

function setLayOutParams_inner ::
  "wevent list \<Rightarrow> int \<Rightarrow> int \<Rightarrow> nat \<Rightarrow> nat \<Rightarrow> int \<Rightarrow> nat \<Rightarrow> wevent list \<times> int" where
  "setLayOutParams_inner es minLeft width start i left k =
     (if k < i
      then (let left1 = (if k = start \<and> left > ev_left (es ! start)
                         then ev_left (es ! start) else left);
                es1 = es[k := (es ! k)\<lparr>ev_width := width\<rparr>];
                es2 = es1[k := (es1 ! k)\<lparr>ev_left := max left1 minLeft\<rparr>]
            in setLayOutParams_inner es2 minLeft width start i (left1 + ev_width (es2 ! k)) (k + 1))
      else (es, left))"
  by pat_completeness auto

termination
  by (relation "measure (\<lambda>(es, minLeft, width, start, i, left, k). i - k)") auto

declare setLayOutParams_inner.simps [simp del]

lemma length_setLayOutParams_inner [simp]:
  "length (fst (setLayOutParams_inner es minLeft width start i left k)) = length es"
  by (induction es minLeft width start i left k rule: setLayOutParams_inner.induct)
     (subst setLayOutParams_inner.simps, simp add: Let_def)

lemma length_setLayOutParams_inner_eq:
  "(es1, left1) = setLayOutParams_inner es minLeft width start i left k \<Longrightarrow>
   length es1 = length es"
  by (metis fst_conv length_setLayOutParams_inner)

text \<open>
  The outer loop, on the state \<open>(_events, start, i)\<close>. In the second branch the count of
  left collisions is not zero, so \<open>event.collisions[0]\<close> exists and is less than \<open>i\<close>:
  the read \<open>_events[event.collisions[0]]\<close> is in range
  (lemma \<open>getLeftCollisionsCount_pos\<close>).
\<close>

function setLayOutParams_loop ::
  "wevent list \<Rightarrow> int \<Rightarrow> int \<Rightarrow> nat \<Rightarrow> nat \<Rightarrow> wevent list" where
  "setLayOutParams_loop es minLeft maxWidth start i =
     (if i < length es
      then (if getLeftCollisionsCount (collisions (es ! i)) i = 0
            then setLayOutParams_loop
                   (es[i := (es ! i)\<lparr>ev_left := minLeft, ev_width := maxWidth\<rparr>])
                   minLeft maxWidth i (i + 1)
            else (let left = ev_left (es ! (collisions (es ! i) ! 0));
                      width = divShl0 maxWidth (int i - int start + 1)
                  in case setLayOutParams_inner es minLeft width start i left start of
                       (es1, left1) \<Rightarrow>
                         setLayOutParams_loop
                           (es1[i := (es1 ! i)\<lparr>ev_left := left1, ev_width := width\<rparr>])
                           minLeft maxWidth start (i + 1)))
      else es)"
  by pat_completeness auto

termination
  by (relation "measure (\<lambda>(es, minLeft, maxWidth, start, i). length es - i)")
     (auto dest: length_setLayOutParams_inner_eq)

declare setLayOutParams_loop.simps [simp del]

definition setLayOutParams :: "wevent list \<Rightarrow> int \<Rightarrow> int \<Rightarrow> wevent list" where
  "setLayOutParams es minLeft maxWidth = setLayOutParams_loop es minLeft maxWidth 0 0"

subsection \<open>processEventsUnder\<close>

text \<open>
  The hash \<open>eventIdxById\<close>, as the map of its own properties: a later event with the
  same id overwrites the entry. The assignment \<open>eventIdxById['__proto__'] = i\<close> runs the
  setter that \<open>Object.prototype\<close> has for this name, which ignores a number: no property
  is made.
\<close>

fun eventIdxById_loop ::
  "wevent list \<Rightarrow> nat \<Rightarrow> (js_id \<rightharpoonup> nat) \<Rightarrow> (js_id \<rightharpoonup> nat)" where
  "eventIdxById_loop [] i m = m"
| "eventIdxById_loop (e # rest) i m =
     eventIdxById_loop rest (i + 1)
       (if ev_id e = Name ''__proto__'' then m else m(ev_id e \<mapsto> i))"

text \<open>
  A column group. Its \<open>items\<close> are the very objects of \<open>_eventsUnder\<close>; the model holds
  their indices in \<open>_eventsUnder\<close> and writes the laid out items back there. The hash
  \<open>eventsGroups\<close> is the association list of its own properties, in the order in which
  the keys were added.
\<close>

record eventGroup =
  items :: "nat list"
  g_left :: int
  g_width :: int

type_synonym eventsGroups = "(js_id \<times> eventGroup) list"

fun updateGroup :: "js_id \<Rightarrow> (eventGroup \<Rightarrow> eventGroup) \<Rightarrow> eventsGroups \<Rightarrow> eventsGroups" where
  "updateGroup key f [] = []"
| "updateGroup key f ((k, g) # rest) =
     (if k = key then (k, f g) # rest else (k, g) # updateGroup key f rest)"

text \<open>
  The loop \<open>for (j = 0; j < i; ++j)\<close> of the branch with left collisions, on the state
  \<open>(left, width, j)\<close>. \<open>otherEventGroup.left\<close> is read only when the two events collide.
  When the hash does not own the key, \<open>otherEventGroup\<close> is an inherited member, whose
  \<open>left\<close> is \<open>undefined\<close> and compares false, or it is \<open>undefined\<close> and the read throws.
\<close>

function fitBetween ::
  "wevent list \<Rightarrow> eventsGroups \<Rightarrow> wevent \<Rightarrow> eventGroup \<Rightarrow> int \<Rightarrow> nat \<Rightarrow> int \<Rightarrow> int \<Rightarrow> nat
   \<Rightarrow> error + int \<times> int" where
  "fitBetween eventsUnder groups ev eventGroup topLeft i left width j =
     (if j < i
      then (if isEventsCollides (eventsUnder ! j) ev
            then (case map_of groups (propKey (topEventId (eventsUnder ! j))) of
                    None \<Rightarrow>
                      (if inherited (propKey (topEventId (eventsUnder ! j)))
                       then fitBetween eventsUnder groups ev eventGroup topLeft i
                              left width (j + 1)
                       else Inl TypeError)
                  | Some otherEventGroup \<Rightarrow>
                      (if g_left otherEventGroup < g_left eventGroup
                       then (let left1 = g_left otherEventGroup + g_width otherEventGroup
                             in fitBetween eventsUnder groups ev eventGroup topLeft i
                                  left1 (width + (topLeft - left1)) (j + 1))
                       else fitBetween eventsUnder groups ev eventGroup topLeft i
                              left width (j + 1)))
            else fitBetween eventsUnder groups ev eventGroup topLeft i left width (j + 1))
      else Inr (left, width))"
  by pat_completeness auto

termination
  by (relation "measure (\<lambda>(eventsUnder, groups, ev, eventGroup, topLeft, i, left, width, j). i - j)")
     auto

declare fitBetween.simps [simp del]

text \<open>The loop \<open>for (; j >= 0; --j)\<close> from \<open>eventAtTopIdx - 1\<close> down; \<open>n\<close> is \<open>j + 1\<close>.\<close>

fun fitAtLeft :: "wevent list \<Rightarrow> wevent \<Rightarrow> int \<Rightarrow> int \<Rightarrow> int \<Rightarrow> nat \<Rightarrow> int \<times> int" where
  "fitAtLeft es ev topLeft left width 0 = (left, width)"
| "fitAtLeft es ev topLeft left width (Suc j) =
     (if isEventsCollides (es ! j) ev
      then (let left1 = ev_left (es ! j) + ev_width (es ! j)
            in (left1, width + (topLeft - left1)))
      else fitAtLeft es ev topLeft left width j)"

text \<open>The loop \<open>for (; j < _events.length; ++j)\<close> from \<open>eventAtTopIdx + 1\<close> up.\<close>

function fitAtRight :: "wevent list \<Rightarrow> wevent \<Rightarrow> int \<Rightarrow> int \<Rightarrow> nat \<Rightarrow> int" where
  "fitAtRight es ev left width j =
     (if j < length es
      then (if isEventsCollides (es ! j) ev
            then ev_left (es ! j) - left
            else fitAtRight es ev left width (j + 1))
      else width)"
  by pat_completeness auto

termination
  by (relation "measure (\<lambda>(es, ev, left, width, j). length es - j)") auto

declare fitAtRight.simps [simp del]

text \<open>
  One pass of the loop over \<open>_eventsUnder\<close>, at index \<open>i\<close>.

  When \<open>eventsGroups\<close> does not own the key \<open>eventAtTopId\<close> and \<open>Object.prototype\<close> has it,
  \<open>eventsGroups[eventAtTopId]\<close> is the inherited member, which is truthy: no group is
  made, \<open>eventGroup\<close> is that member, \<open>eventGroup.items\<close> is \<open>undefined\<close> and the call of
  \<open>push\<close> throws.

  Otherwise, a key that \<open>eventIdxById\<close> does not own gives an \<open>eventAtTopIdx\<close> that is no
  index of \<open>_events\<close> (\<open>undefined\<close>, or an inherited member); then \<open>eventAtTop\<close> is
  \<open>undefined\<close>, and the read of its fields throws, where the group is made or at
  \<open>eventAtTop.collisions\<close>. An index found in \<open>eventIdxById\<close> is an index of \<open>_events\<close>.
\<close>

definition processEventsUnder_step ::
  "wevent list \<Rightarrow> wevent list \<Rightarrow> (js_id \<rightharpoonup> nat) \<Rightarrow> eventsGroups \<Rightarrow> nat
   \<Rightarrow> error + eventsGroups" where
  "processEventsUnder_step eventsUnder es eventIdxById groups i =
     (let ev = eventsUnder ! i;
          eventAtTopId = propKey (topEventId ev)
      in
      if map_of groups eventAtTopId = None \<and> inherited eventAtTopId then Inl TypeError else
      case eventIdxById eventAtTopId of
        None \<Rightarrow> Inl TypeError
      | Some eventAtTopIdx \<Rightarrow>
         (let eventAtTop = es ! eventAtTopIdx;
              groups1 = (if map_of groups eventAtTopId = None
                         then groups @ [(eventAtTopId,
                                \<lparr>items = [], g_left = ev_left eventAtTop,
                                  g_width = ev_width eventAtTop\<rparr>)]
                         else groups);
              groups2 = updateGroup eventAtTopId (\<lambda>g. g\<lparr>items := items g @ [i]\<rparr>) groups1;
              eventGroup = the (map_of groups2 eventAtTopId);
              hasTopCollisionAtRight =
                (if eventAtTopIdx + 1 < length es \<and> i + 1 < length eventsUnder
                 then Some (ev_id (es ! (eventAtTopIdx + 1))) = topEventId (eventsUnder ! (i + 1))
                      \<and> isEventsCollides (eventsUnder ! (i + 1)) ev
                 else False)
          in if collisions eventAtTop \<noteq> [] \<and> \<not> hasTopCollisionAtRight
             then (case (if getLeftCollisionsCount (collisions ev) i \<noteq> 0
                         then fitBetween eventsUnder groups2 ev eventGroup (ev_left eventAtTop) i
                                (ev_left eventAtTop) (ev_width eventAtTop) 0
                         else Inr (fitAtLeft es ev (ev_left eventAtTop)
                                (ev_left eventAtTop) (ev_width eventAtTop) eventAtTopIdx)) of
                     Inl err \<Rightarrow> Inl err
                   | Inr (left, width) \<Rightarrow>
                       (let width1 = fitAtRight es ev left width (eventAtTopIdx + 1)
                        in Inr (updateGroup eventAtTopId
                                  (\<lambda>g. g\<lparr>g_left := left, g_width := width1\<rparr>) groups2)))
             else Inr groups2))"

function processEventsUnder_loop ::
  "wevent list \<Rightarrow> wevent list \<Rightarrow> (js_id \<rightharpoonup> nat) \<Rightarrow> eventsGroups \<Rightarrow> nat
   \<Rightarrow> error + eventsGroups" where
  "processEventsUnder_loop eventsUnder es eventIdxById groups i =
     (if i < length eventsUnder
      then (case processEventsUnder_step eventsUnder es eventIdxById groups i of
              Inl err \<Rightarrow> Inl err
            | Inr groups' \<Rightarrow> processEventsUnder_loop eventsUnder es eventIdxById groups' (i + 1))
      else Inr groups)"
  by pat_completeness auto

termination
  by (relation "measure (\<lambda>(eventsUnder, es, eventIdxById, groups, i). length eventsUnder - i)")
     auto

declare processEventsUnder_loop.simps [simp del]

text \<open>
  The last loop lays out each group's items with \<open>setLayOutParams\<close>; the items are objects
  of \<open>_eventsUnder\<close>, so their new fields show there. Every index of \<open>_eventsUnder\<close> is an
  item of exactly one group and \<open>setLayOutParams\<close> reads and writes its own array only, so
  that the order in which \<open>for (i in eventsGroups)\<close> visits the groups does not show in
  the result.
\<close>

fun writeBack :: "wevent list \<Rightarrow> nat list \<Rightarrow> wevent list \<Rightarrow> wevent list" where
  "writeBack eventsUnder (k # ks) (e # es) = writeBack (eventsUnder[k := e]) ks es"
| "writeBack eventsUnder ks es = eventsUnder"

fun layOutGroups :: "eventsGroups \<Rightarrow> wevent list \<Rightarrow> wevent list" where
  "layOutGroups [] eventsUnder = eventsUnder"
| "layOutGroups ((key, g) # rest) eventsUnder =
     layOutGroups rest
       (writeBack eventsUnder (items g)
          (setLayOutParams (map (\<lambda>k. eventsUnder ! k) (items g)) (g_left g) (g_width g)))"

text \<open>Returns the array \<open>_eventsUnder\<close> as the call leaves it; \<open>_events\<close> is only read.\<close>

definition processEventsUnder :: "wevent list \<Rightarrow> wevent list \<Rightarrow> error + wevent list" where
  "processEventsUnder eventsUnder es =
     (case processEventsUnder_loop eventsUnder es (eventIdxById_loop es 0 Map.empty) [] 0 of
        Inl err \<Rightarrow> Inl err
      | Inr groups \<Rightarrow> Inr (layOutGroups groups eventsUnder))"

subsection \<open>layOutDay\<close>

definition MAX_WIDTH :: int where "MAX_WIDTH = 620"

definition MIN_LEFT :: int where "MIN_LEFT = 10"

definition layOutDay :: "js_arg \<Rightarrow> error + oevent list" where
  "layOutDay arg =
     (case arg of
        NotArray \<Rightarrow> Inl InvalidInput
      | JsArray _ \<Rightarrow>
         (case cloneEvents arg of
            Inl err \<Rightarrow> Inl err
          | Inr cloned \<Rightarrow>
             (let sorted = sortEvents cloned;
                  es0 = updateCollisions sorted
              in case getEventsUnder es0 of
                   (es1, eventsUnder) \<Rightarrow>
                     (let es2 = setLayOutParams es1 MIN_LEFT MAX_WIDTH
                      in case processEventsUnder eventsUnder es2 of
                           Inl err \<Rightarrow> Inl err
                         | Inr eventsUnder' \<Rightarrow> Inr (normalizeEvents (es2 @ eventsUnder'))))))"

section \<open>The layout on a store of objects and arrays\<close>

text \<open>
  The definitions above pass the working arrays as values. To see what \<open>layOutDay\<close> does
  to the objects and to the array of its caller, this section runs the same steps on a
  store: an object is reached by its address, an array holds addresses, and a field
  assignment of the source writes the store at the address of the object. The caller's
  array and events are in the store when \<open>layOutDay\<close> starts. An input event is held as
  an object of the same shape as a working one; of its fields only \<open>id\<close>, \<open>start\<close> and
  \<open>end\<close> are read.
\<close>

record store =
  objs :: "nat \<Rightarrow> wevent"
  arrs :: "nat \<Rightarrow> nat list"
  nextObj :: nat
  nextArr :: nat

text \<open>An object literal and an array literal take the next free address.\<close>

definition newObject :: "store \<Rightarrow> wevent \<Rightarrow> store \<times> nat" where
  "newObject s v = (s\<lparr>objs := (objs s)(nextObj s := v), nextObj := nextObj s + 1\<rparr>, nextObj s)"

definition newArray :: "store \<Rightarrow> nat list \<Rightarrow> store \<times> nat" where
  "newArray s xs = (s\<lparr>arrs := (arrs s)(nextArr s := xs), nextArr := nextArr s + 1\<rparr>, nextArr s)"

text \<open>An assignment to fields of the object at address \<open>r\<close>, and to the contents of the
  array at address \<open>c\<close>.\<close>

definition setObj :: "store \<Rightarrow> nat \<Rightarrow> (wevent \<Rightarrow> wevent) \<Rightarrow> store" where
  "setObj s r f = s\<lparr>objs := (objs s)(r := f (objs s r))\<rparr>"

definition setArr :: "store \<Rightarrow> nat \<Rightarrow> nat list \<Rightarrow> store" where
  "setArr s c xs = s\<lparr>arrs := (arrs s)(c := xs)\<rparr>"

text \<open>The objects that the elements of an array refer to.\<close>

definition load :: "store \<Rightarrow> nat list \<Rightarrow> wevent list" where
  "load s refs = map (objs s) refs"

subsection \<open>cloneEvents on the store\<close>

text \<open>Each pass builds a new object from the fields \<open>id\<close>, \<open>start\<close> and \<open>end\<close> of the
  event and pushes it on \<open>clonedEvents\<close>, an array that no one else holds before
  \<open>cloneEvents\<close> returns: the model puts it in the store then.\<close>

fun cloneEvents_h_loop :: "store \<Rightarrow> nat list \<Rightarrow> nat list \<Rightarrow> store \<times> nat list" where
  "cloneEvents_h_loop s [] clonedEvents = (s, clonedEvents)"
| "cloneEvents_h_loop s (r # rest) clonedEvents =
     (case newObject s
        \<lparr>ev_id = ev_id (objs s r), ev_start = ev_start (objs s r), ev_end = ev_end (objs s r),
         ev_left = 0, ev_width = 0,
         collisions = [], hasEventUnder = False, topEventId = None\<rparr> of
        (s1, r1) \<Rightarrow> cloneEvents_h_loop s1 rest (clonedEvents @ [r1]))"

definition cloneEvents_h :: "store \<Rightarrow> nat \<Rightarrow> store \<times> nat" where
  "cloneEvents_h s a =
     (case cloneEvents_h_loop s (arrs s a) [] of
        (s1, clonedEvents) \<Rightarrow> newArray s1 clonedEvents)"

subsection \<open>The sort on the store\<close>

text \<open>\<open>events.sort\<close> reorders the array \<open>events\<close> in place; the comparator reads the
  objects.\<close>

fun insertFromRight_h :: "store \<Rightarrow> nat \<Rightarrow> nat list \<Rightarrow> nat list" where
  "insertFromRight_h s element [] = [element]"
| "insertFromRight_h s element (tmp # rest) =
     (if compareStartEndTime (objs s tmp) (objs s element) > 0
      then tmp # insertFromRight_h s element rest
      else element # tmp # rest)"

definition sortEvents_h :: "store \<Rightarrow> nat \<Rightarrow> store" where
  "sortEvents_h s c =
     setArr s c (rev (foldl (\<lambda>prefix element. insertFromRight_h s element prefix) [] (arrs s c)))"

subsection \<open>updateCollisions on the store\<close>

text \<open>The array is only read: the model takes its elements.\<close>

fun updateCollisions_h_reset :: "store \<Rightarrow> nat list \<Rightarrow> store" where
  "updateCollisions_h_reset s [] = s"
| "updateCollisions_h_reset s (r # rest) =
     updateCollisions_h_reset (setObj s r (\<lambda>e. e\<lparr>collisions := []\<rparr>)) rest"

function updateCollisions_h_inner :: "store \<Rightarrow> nat list \<Rightarrow> nat \<Rightarrow> nat \<Rightarrow> store" where
  "updateCollisions_h_inner s refs i j =
     (if j < length refs
      then updateCollisions_h_inner
             (if isEventsCollides (objs s (refs ! i)) (objs s (refs ! j))
              then setObj (setObj s (refs ! i) (pushCollision j)) (refs ! j) (pushCollision i)
              else s) refs i (j + 1)
      else s)"
  by pat_completeness auto

termination
  by (relation "measure (\<lambda>(s, refs, i, j). length refs - j)") auto

declare updateCollisions_h_inner.simps [simp del]

function updateCollisions_h_outer :: "store \<Rightarrow> nat list \<Rightarrow> nat \<Rightarrow> store" where
  "updateCollisions_h_outer s refs i =
     (if i < length refs - 1
      then updateCollisions_h_outer (updateCollisions_h_inner s refs i (i + 1)) refs (i + 1)
      else s)"
  by pat_completeness auto

termination
  by (relation "measure (\<lambda>(s, refs, i). length refs - i)") auto

declare updateCollisions_h_outer.simps [simp del]

definition updateCollisions_h :: "store \<Rightarrow> nat list \<Rightarrow> store" where
  "updateCollisions_h s refs = updateCollisions_h_outer (updateCollisions_h_reset s refs) refs 0"

lemma arrs_setObj [simp]: "arrs (setObj s r f) = arrs s"
  by (simp add: setObj_def)

lemma arrs_updateCollisions_h_reset [simp]: "arrs (updateCollisions_h_reset s refs) = arrs s"
  by (induction s refs rule: updateCollisions_h_reset.induct) simp_all

lemma arrs_updateCollisions_h_inner [simp]: "arrs (updateCollisions_h_inner s refs i j) = arrs s"
  by (induction s refs i j rule: updateCollisions_h_inner.induct)
     (subst updateCollisions_h_inner.simps, simp)

lemma arrs_updateCollisions_h_outer [simp]: "arrs (updateCollisions_h_outer s refs i) = arrs s"
  by (induction s refs i rule: updateCollisions_h_outer.induct)
     (subst updateCollisions_h_outer.simps, simp)

lemma arrs_updateCollisions_h [simp]: "arrs (updateCollisions_h s refs) = arrs s"
  by (simp add: updateCollisions_h_def)

subsection \<open>getEventsUnder on the store\<close>

text \<open>
  The search of the inner loop only reads: it is \<open>getEventsUnder_inner\<close> on the objects
  of the array. Its body takes the current object out of the array \<open>_events\<close>, writes its
  \<open>topEventId\<close>, pushes it on \<open>eventsUnder\<close>, sets the flag of \<open>leftEvent\<close> and updates
  the collisions of the objects left in \<open>_events\<close>. The array \<open>eventsUnder\<close> is local.
\<close>

function getEventsUnder_h_loop ::
  "store \<Rightarrow> nat \<Rightarrow> nat list \<Rightarrow> nat \<Rightarrow> nat \<Rightarrow> store \<times> nat list" where
  "getEventsUnder_h_loop s c eventsUnder start i =
     (if i < length (arrs s c)
      then (if getLeftCollisionsCount (collisions (objs s (arrs s c ! i))) i \<noteq> 0
            then (case getEventsUnder_inner (load s (arrs s c)) i start of
                    Some j \<Rightarrow>
                      (let temp = arrs s c ! i;
                           leftEvent = arrs s c ! j;
                           s1 = setArr s c (splice1 (arrs s c) i);
                           s2 = setObj s1 temp (\<lambda>e. e\<lparr>topEventId := Some (ev_id (objs s1 leftEvent))\<rparr>);
                           s3 = setObj s2 leftEvent (\<lambda>e. e\<lparr>hasEventUnder := True\<rparr>);
                           s4 = updateCollisions_h s3 (arrs s3 c)
                       in getEventsUnder_h_loop s4 c (eventsUnder @ [temp]) start i)
                  | None \<Rightarrow> getEventsUnder_h_loop s c eventsUnder start (i + 1))
            else getEventsUnder_h_loop s c eventsUnder i (i + 1))
      else (s, eventsUnder))"
  by pat_completeness auto

termination
  by (relation "measure (\<lambda>(s, c, eventsUnder, start, i). length (arrs s c) - i)")
     (auto simp: splice1_def setArr_def)

declare getEventsUnder_h_loop.simps [simp del]

definition getEventsUnder_h :: "store \<Rightarrow> nat \<Rightarrow> store \<times> nat list" where
  "getEventsUnder_h s c =
     (case getEventsUnder_h_loop s c [] 0 0 of
        (s1, eventsUnder) \<Rightarrow>
          (if eventsUnder \<noteq> [] then updateCollisions_h s1 eventsUnder else s1, eventsUnder))"

subsection \<open>setLayOutParams on the store\<close>

function setLayOutParams_h_inner ::
  "store \<Rightarrow> nat list \<Rightarrow> int \<Rightarrow> int \<Rightarrow> nat \<Rightarrow> nat \<Rightarrow> int \<Rightarrow> nat \<Rightarrow> store \<times> int" where
  "setLayOutParams_h_inner s refs minLeft width start i left k =
     (if k < i
      then (let left1 = (if k = start \<and> left > ev_left (objs s (refs ! start))
                         then ev_left (objs s (refs ! start)) else left);
                s1 = setObj s (refs ! k) (\<lambda>e. e\<lparr>ev_width := width\<rparr>);
                s2 = setObj s1 (refs ! k) (\<lambda>e. e\<lparr>ev_left := max left1 minLeft\<rparr>)
            in setLayOutParams_h_inner s2 refs minLeft width start i
                 (left1 + ev_width (objs s2 (refs ! k))) (k + 1))
      else (s, left))"
  by pat_completeness auto

termination
  by (relation "measure (\<lambda>(s, refs, minLeft, width, start, i, left, k). i - k)") auto

declare setLayOutParams_h_inner.simps [simp del]

function setLayOutParams_h_loop ::
  "store \<Rightarrow> nat list \<Rightarrow> int \<Rightarrow> int \<Rightarrow> nat \<Rightarrow> nat \<Rightarrow> store" where
  "setLayOutParams_h_loop s refs minLeft maxWidth start i =
     (if i < length refs
      then (if getLeftCollisionsCount (collisions (objs s (refs ! i))) i = 0
            then setLayOutParams_h_loop
                   (setObj s (refs ! i) (\<lambda>e. e\<lparr>ev_left := minLeft, ev_width := maxWidth\<rparr>))
                   refs minLeft maxWidth i (i + 1)
            else (let left = ev_left (objs s (refs ! (collisions (objs s (refs ! i)) ! 0)));
                      width = divShl0 maxWidth (int i - int start + 1)
                  in case setLayOutParams_h_inner s refs minLeft width start i left start of
                       (s1, left1) \<Rightarrow>
                         setLayOutParams_h_loop
                           (setObj s1 (refs ! i) (\<lambda>e. e\<lparr>ev_left := left1, ev_width := width\<rparr>))
                           refs minLeft maxWidth start (i + 1)))
      else s)"
  by pat_completeness auto

termination
  by (relation "measure (\<lambda>(s, refs, minLeft, maxWidth, start, i). length refs - i)") auto

declare setLayOutParams_h_loop.simps [simp del]

definition setLayOutParams_h :: "store \<Rightarrow> nat list \<Rightarrow> int \<Rightarrow> int \<Rightarrow> store" where
  "setLayOutParams_h s refs minLeft maxWidth = setLayOutParams_h_loop s refs minLeft maxWidth 0 0"

subsection \<open>processEventsUnder on the store\<close>

text \<open>
  The first loop reads the objects of both arrays and writes only the groups, which are
  its own objects: it is \<open>processEventsUnder_loop\<close> on the objects of the two arrays. The
  last loop lays out the items of each group, which are objects of \<open>_eventsUnder\<close>.
\<close>

fun layOutGroups_h :: "eventsGroups \<Rightarrow> nat list \<Rightarrow> store \<Rightarrow> store" where
  "layOutGroups_h [] eventsUnder s = s"
| "layOutGroups_h ((key, g) # rest) eventsUnder s =
     layOutGroups_h rest eventsUnder
       (setLayOutParams_h s (map (\<lambda>k. eventsUnder ! k) (items g)) (g_left g) (g_width g))"

definition processEventsUnder_h :: "store \<Rightarrow> nat list \<Rightarrow> nat list \<Rightarrow> error + store" where
  "processEventsUnder_h s eventsUnder es =
     (case processEventsUnder_loop (load s eventsUnder) (load s es)
             (eventIdxById_loop (load s es) 0 Map.empty) [] 0 of
        Inl err \<Rightarrow> Inl err
      | Inr groups \<Rightarrow> Inr (layOutGroups_h groups eventsUnder s))"

subsection \<open>layOutDay on the store\<close>

text \<open>The argument is a value that is no array, or the address of an array of events.
  The result is the store as the call leaves it, with the error or the returned records.\<close>

datatype js_ref = NotArrayRef | ArrayRef nat

definition layOutDay_h :: "store \<Rightarrow> js_ref \<Rightarrow> store \<times> (error + oevent list)" where
  "layOutDay_h s arg =
     (case arg of
        NotArrayRef \<Rightarrow> (s, Inl InvalidInput)
      | ArrayRef a \<Rightarrow>
         (case cloneEvents_h s a of
            (s1, events) \<Rightarrow>
              (let s2 = sortEvents_h s1 events;
                   s3 = updateCollisions_h s2 (arrs s2 events)
               in case getEventsUnder_h s3 events of
                    (s4, eventsUnder) \<Rightarrow>
                      (let s5 = setLayOutParams_h s4 (arrs s4 events) MIN_LEFT MAX_WIDTH
                       in case processEventsUnder_h s5 eventsUnder (arrs s5 events) of
                            Inl err \<Rightarrow> (s5, Inl err)
                          | Inr s6 \<Rightarrow>
                              (s6, Inr (normalizeEvents
                                          (load s6 (arrs s6 events @ eventsUnder))))))))"

section \<open>Notions used in the statements and in the proofs\<close>

text \<open>Two placed records overlap horizontally when the half-open spans
  \<open>[left, left + width)\<close> share a point.\<close>

definition spansOverlap :: "'a placed_scheme \<Rightarrow> 'b placed_scheme \<Rightarrow> bool" where
  "spansOverlap a b \<longleftrightarrow>
     {ev_left a ..< ev_left a + ev_width a} \<inter> {ev_left b ..< ev_left b + ev_width b} \<noteq> {}"

text \<open>An event is well formed when \<open>0 \<le> start < end \<le> 720\<close>.\<close>

definition wellFormed :: "'a event_scheme \<Rightarrow> bool" where
  "wellFormed e \<longleftrightarrow> 0 \<le> ev_start e \<and> ev_start e < ev_end e \<and> ev_end e \<le> 720"

text \<open>A working object without its collisions: what \<open>updateCollisions\<close> leaves alone.\<close>

definition strip :: "wevent \<Rightarrow> wevent" where
  "strip e = e\<lparr>collisions := []\<rparr>"

text \<open>The collisions list of the event at index k once all pairs (a, b), a < b, with
  a < i, or a = i and b < j, have been compared.\<close>

definition collsUpTo :: "wevent list \<Rightarrow> nat \<Rightarrow> nat \<Rightarrow> nat \<Rightarrow> nat list" where
  "collsUpTo bs i j k =
     filter (\<lambda>p. p \<noteq> k \<and> isEventsCollides (bs ! min p k) (bs ! max p k)
                 \<and> (min p k < i \<or> (min p k = i \<and> max p k < j)))
       [0..<length bs]"

text \<open>The invariant of the two loops of \<open>updateCollisions\<close>.\<close>

definition collsInv :: "wevent list \<Rightarrow> wevent list \<Rightarrow> nat \<Rightarrow> nat \<Rightarrow> bool" where
  "collsInv bs es i j \<longleftrightarrow>
     map strip es = bs \<and> (\<forall>k<length bs. collisions (es ! k) = collsUpTo bs i j k)"

text \<open>The list once every pair has been compared.\<close>

definition collsAll :: "wevent list \<Rightarrow> nat \<Rightarrow> nat list" where
  "collsAll bs k =
     filter (\<lambda>p. p \<noteq> k \<and> isEventsCollides (bs ! min p k) (bs ! max p k)) [0..<length bs]"

text \<open>Two colliding working objects.\<close>

definition twoEvents :: "wevent list" where
  "twoEvents =
     [\<lparr>ev_id = Num 1, ev_start = 0, ev_end = 60, ev_left = 0, ev_width = 0,
       collisions = [], hasEventUnder = False, topEventId = None\<rparr>,
      \<lparr>ev_id = Num 2, ev_start = 30, ev_end = 90, ev_left = 0, ev_width = 0,
       collisions = [], hasEventUnder = False, topEventId = None\<rparr>]"

text \<open>A single nested event that still carries the collisions list it had in the
  primary array, as \<open>getEventsUnder\<close> passes it to \<open>updateCollisions\<close>.\<close>

definition staleEvent :: "wevent list" where
  "staleEvent =
     [\<lparr>ev_id = Num 3, ev_start = 120, ev_end = 240, ev_left = 0, ev_width = 0,
       collisions = [0, 1], hasEventUnder = False, topEventId = Some (Num 1)\<rparr>]"

text \<open>One removal of the outer loop of getEventsUnder: the event at \<open>i\<close> goes under the
  event at \<open>j\<close>.\<close>

definition moveUnder :: "wevent list \<Rightarrow> nat \<Rightarrow> nat \<Rightarrow> wevent list" where
  "moveUnder es i j =
     updateCollisions ((splice1 es i)[j := (splice1 es i ! j)\<lparr>hasEventUnder := True\<rparr>])"

text \<open>Every nested event names an event of the primary array, at an index the scan has
  passed, whose flag is set.\<close>

definition underInv :: "wevent list \<Rightarrow> wevent list \<Rightarrow> nat \<Rightarrow> bool" where
  "underInv es eventsUnder i \<longleftrightarrow>
     (\<forall>u \<in> set eventsUnder. \<exists>k. k < i \<and> k < length es
          \<and> topEventId u = Some (ev_id (es ! k)) \<and> hasEventUnder (es ! k))"

text \<open>With pairwise distinct ids the nested events name pairwise distinct anchors.\<close>

definition distinctInv :: "wevent list \<Rightarrow> wevent list \<Rightarrow> nat \<Rightarrow> bool" where
  "distinctInv es eventsUnder i \<longleftrightarrow>
     distinct (map ev_id es) \<and> distinct (map topEventId eventsUnder) \<and> underInv es eventsUnder i"

text \<open>As many events of the primary array have their flag set as there are nested
  events, and no event from index \<open>i\<close> on has it set.\<close>

definition flagsInv :: "wevent list \<Rightarrow> wevent list \<Rightarrow> nat \<Rightarrow> bool" where
  "flagsInv es eventsUnder i \<longleftrightarrow>
     length (filter hasEventUnder es) = length eventsUnder
   \<and> (\<forall>k. i \<le> k \<and> k < length es \<longrightarrow> \<not> hasEventUnder (es ! k))"

text \<open>The list \<open>ks\<close> gives, for each nested event in turn, the index of an event of the
  primary array that it names as its anchor and whose flag is set; no index comes twice.\<close>

definition anchorsAt :: "wevent list \<Rightarrow> wevent list \<Rightarrow> nat list \<Rightarrow> bool" where
  "anchorsAt es eventsUnder ks \<longleftrightarrow>
     length ks = length eventsUnder \<and> distinct ks
   \<and> list_all (\<lambda>n. ks ! n < length es
                   \<and> topEventId (eventsUnder ! n) = Some (ev_id (es ! (ks ! n)))
                   \<and> hasEventUnder (es ! (ks ! n))) [0..<length ks]"

text \<open>Such a list exists, with indices that the scan has passed.\<close>

definition anchorsInv :: "wevent list \<Rightarrow> wevent list \<Rightarrow> nat \<Rightarrow> bool" where
  "anchorsInv es eventsUnder i \<longleftrightarrow> (\<exists>ks. anchorsAt es eventsUnder ks \<and> (\<forall>k \<in> set ks. k < i))"

text \<open>The ids of the two arrays together stay the same.\<close>

definition idsInv :: "js_id multiset \<Rightarrow> wevent list \<Rightarrow> wevent list \<Rightarrow> nat \<Rightarrow> bool" where
  "idsInv M es eventsUnder i \<longleftrightarrow> mset (map ev_id es) + mset (map ev_id eventsUnder) = M"

text \<open>A working object without its position: what \<open>setLayOutParams\<close> leaves alone.\<close>

definition unplace :: "wevent \<Rightarrow> wevent" where
  "unplace e = e\<lparr>ev_left := 0, ev_width := 0\<rparr>"

text \<open>A placed record lies in the window that starts at \<open>minLeft\<close> and is \<open>maxWidth\<close> wide.\<close>

definition inWindow :: "int \<Rightarrow> int \<Rightarrow> 'a placed_scheme \<Rightarrow> bool" where
  "inWindow minLeft maxWidth e \<longleftrightarrow>
     minLeft \<le> ev_left e \<and> ev_left e + ev_width e \<le> minLeft + maxWidth"

text \<open>Every nested event before index \<open>i\<close> has its group.\<close>

definition keysOk :: "wevent list \<Rightarrow> eventsGroups \<Rightarrow> nat \<Rightarrow> bool" where
  "keysOk eventsUnder groups i \<longleftrightarrow>
     (\<forall>j<i. \<exists>t g. topEventId (eventsUnder ! j) = Some t \<and> map_of groups t = Some g)"

text \<open>The hash \<open>eventsGroups\<close> once the group of the anchor \<open>t\<close> is there and holds index \<open>i\<close>.\<close>

definition joinGroup :: "wevent list \<Rightarrow> eventsGroups \<Rightarrow> js_id \<Rightarrow> nat \<Rightarrow> nat \<Rightarrow> eventsGroups" where
  "joinGroup es groups t k i =
     updateGroup t (\<lambda>g. g\<lparr>items := items g @ [i]\<rparr>)
       (if map_of groups t = None
        then groups @ [(t, \<lparr>items = [], g_left = ev_left (es ! k), g_width = ev_width (es ! k)\<rparr>)]
        else groups)"

text \<open>Every nested event names an anchor that \<open>eventIdxById\<close> knows and that is no
  property of \<open>Object.prototype\<close>.\<close>

definition anchorsKnown :: "wevent list \<Rightarrow> (js_id \<rightharpoonup> nat) \<Rightarrow> bool" where
  "anchorsKnown eventsUnder eventIdxById \<longleftrightarrow>
     (\<forall>i<length eventsUnder. \<exists>t k. topEventId (eventsUnder ! i) = Some t
          \<and> eventIdxById t = Some k \<and> \<not> inherited t)"

text \<open>The keys of \<open>eventsGroups\<close> with the items of each group.\<close>

definition groupItems :: "eventsGroups \<Rightarrow> (js_id \<times> nat list) list" where
  "groupItems groups = map (\<lambda>(key, g). (key, items g)) groups"

text \<open>One group for each nested event before index \<open>i\<close>, holding that event alone.\<close>

definition oneEach :: "wevent list \<Rightarrow> nat \<Rightarrow> (js_id \<times> nat list) list" where
  "oneEach eventsUnder i = map (\<lambda>j. (the (topEventId (eventsUnder ! j)), [j])) [0..<i]"

text \<open>The working object that \<open>cloneEvents\<close> builds from an input event, and the output
  record that \<open>normalizeEvents\<close> builds from a working object.\<close>

definition cloneOf :: "event \<Rightarrow> wevent" where
  "cloneOf e = \<lparr>ev_id = ev_id e, ev_start = ev_start e, ev_end = ev_end e,
         ev_left = 0, ev_width = 0,
         collisions = [], hasEventUnder = False, topEventId = None\<rparr>"

definition normalOf :: "wevent \<Rightarrow> oevent" where
  "normalOf e = \<lparr>ev_id = ev_id e, ev_start = ev_start e, ev_end = ev_end e,
         ev_left = ev_left e, ev_width = ev_width e, ev_top = ev_start e\<rparr>"

text \<open>The events of an array up to its first falsy element.\<close>

fun truthyPrefix :: "event option list \<Rightarrow> event list" where
  "truthyPrefix [] = []"
| "truthyPrefix (None # rest) = []"
| "truthyPrefix (Some e # rest) = e # truthyPrefix rest"

text \<open>The order of \<open>compareStartEndTime\<close>: ascending start, then descending end.\<close>

definition sortKey :: "'a event_scheme \<Rightarrow> int \<times> int" where
  "sortKey e = (ev_start e, - ev_end e)"

text \<open>
  The two arrays that \<open>layOutDay\<close> holds before it calls \<open>processEventsUnder\<close>: the
  primary array, laid out by \<open>setLayOutParams\<close>, and the array of nested events.
\<close>

definition primaryAndUnder :: "event option list \<Rightarrow> wevent list \<times> wevent list" where
  "primaryAndUnder xs =
     (case getEventsUnder (updateCollisions (sortEvents (cloneEvents_loop xs []))) of
        (es1, eventsUnder) \<Rightarrow> (setLayOutParams es1 MIN_LEFT MAX_WIDTH, eventsUnder))"

text \<open>The four events of Claim C1, cloned, sorted and with their collisions.\<close>

definition fourEvents :: "wevent list" where
  "fourEvents = updateCollisions (sortEvents (cloneEvents_loop
       [Some \<lparr>ev_id = Num 1, ev_start = 0, ev_end = 120\<rparr>,
        Some \<lparr>ev_id = Num 2, ev_start = 60, ev_end = 180\<rparr>,
        Some \<lparr>ev_id = Num 3, ev_start = 120, ev_end = 240\<rparr>,
        Some \<lparr>ev_id = Num 4, ev_start = 180, ev_end = 240\<rparr>] []))"

text \<open>Seven events, no two with the same start and end, cloned, sorted and with their
  collisions. Three of them are nested: 4 under 3, 5 under 2 and 7 under 6.\<close>

definition sevenEvents :: "wevent list" where
  "sevenEvents = updateCollisions (sortEvents (cloneEvents_loop
       [Some \<lparr>ev_id = Num 1, ev_start = 0, ev_end = 420\<rparr>,
        Some \<lparr>ev_id = Num 2, ev_start = 60, ev_end = 300\<rparr>,
        Some \<lparr>ev_id = Num 3, ev_start = 120, ev_end = 240\<rparr>,
        Some \<lparr>ev_id = Num 4, ev_start = 240, ev_end = 420\<rparr>,
        Some \<lparr>ev_id = Num 5, ev_start = 300, ev_end = 420\<rparr>,
        Some \<lparr>ev_id = Num 6, ev_start = 300, ev_end = 360\<rparr>,
        Some \<lparr>ev_id = Num 7, ev_start = 360, ev_end = 420\<rparr>] []))"

text \<open>From \<open>s\<close> to \<open>s'\<close> only objects with an address in \<open>R\<close> and arrays with an address
  in \<open>C\<close> have changed.\<close>

definition writesOnly :: "nat set \<Rightarrow> nat set \<Rightarrow> store \<Rightarrow> store \<Rightarrow> bool" where
  "writesOnly R C s s' \<longleftrightarrow>
     (\<forall>r. r \<notin> R \<longrightarrow> objs s' r = objs s r) \<and> (\<forall>b. b \<notin> C \<longrightarrow> arrs s' b = arrs s b)"

text \<open>Every item of every group is an index below \<open>n\<close>.\<close>

definition itemsBelow :: "nat \<Rightarrow> eventsGroups \<Rightarrow> bool" where
  "itemsBelow n groups \<longleftrightarrow> (\<forall>g \<in> snd ` set groups. \<forall>k \<in> set (items g). k < n)"

text \<open>A store with the four events of Claim C1 and the caller's array at address 0.\<close>

definition callerStore :: store where
  "callerStore =
     \<lparr>objs = (\<lambda>r. \<lparr>ev_id = Num (r + 1), ev_start = 60 * int r,
                     ev_end = (if r = 3 then 240 else 60 * int r + 120),
                     ev_left = 0, ev_width = 0,
                     collisions = [], hasEventUnder = False, topEventId = None\<rparr>),
      arrs = (\<lambda>c. if c = 0 then [0, 1, 2, 3] else []),
      nextObj = 4, nextArr = 1\<rparr>"

text \<open>Three well-formed events with pairwise distinct ids; the first has the id
  \<open>'toString'\<close>, and the third is nested under it.\<close>

definition toStringEvents :: "event list" where
  "toStringEvents =
     [\<lparr>ev_id = Name ''toString'', ev_start = 0, ev_end = 60\<rparr>,
      \<lparr>ev_id = Num 2, ev_start = 30, ev_end = 120\<rparr>,
      \<lparr>ev_id = Num 3, ev_start = 70, ev_end = 130\<rparr>]"

text \<open>The input event that an object of the store stands for.\<close>

definition eventOf :: "wevent \<Rightarrow> event" where
  "eventOf w = \<lparr>ev_id = ev_id w, ev_start = ev_start w, ev_end = ev_end w\<rparr>"

text \<open>The items of every group are pairwise distinct indices below \<open>n\<close>.\<close>

definition itemsOk :: "nat \<Rightarrow> eventsGroups \<Rightarrow> bool" where
  "itemsOk n groups \<longleftrightarrow>
     (\<forall>g \<in> snd ` set groups. distinct (items g) \<and> (\<forall>k \<in> set (items g). k < n))"


section \<open>The overlap predicate\<close>

lemma ivl_inter_nonempty:
  "{a ..< b} \<inter> {c ..< d} \<noteq> {} \<longleftrightarrow> max a c < min b (d::int)"
proof
  assume "{a ..< b} \<inter> {c ..< d} \<noteq> {}"
  then obtain x where "x \<in> {a ..< b} \<inter> {c ..< d}" by blast
  then show "max a c < min b d" by auto
next
  assume "max a c < min b d"
  then have "max a c \<in> {a ..< b} \<inter> {c ..< d}" by auto
  then show "{a ..< b} \<inter> {c ..< d} \<noteq> {}" by blast
qed

lemma isEventsCollides_iff:
  "ev_start a < ev_end a \<Longrightarrow> ev_start b < ev_end b \<Longrightarrow>
   isEventsCollides a b \<longleftrightarrow> ev_start a < ev_end b \<and> ev_start b < ev_end a"
  unfolding isEventsCollides_def by auto

lemma isEventsCollides_sym:
  "ev_start a < ev_end a \<Longrightarrow> ev_start b < ev_end b \<Longrightarrow>
   isEventsCollides a b = isEventsCollides b a"
  by (auto simp: isEventsCollides_iff)

text \<open>
  Claim C5. For two events with \<open>start < end\<close>, \<open>isEventsCollides a b\<close> holds exactly when
  the half-open intervals \<open>[a.start, a.end)\<close> and \<open>[b.start, b.end)\<close> intersect, and the
  predicate is symmetric.
\<close>

theorem isEventsCollides_intersect:
  assumes "ev_start a < ev_end a" and "ev_start b < ev_end b"
  shows "(isEventsCollides a b \<longleftrightarrow>
            {ev_start a ..< ev_end a} \<inter> {ev_start b ..< ev_end b} \<noteq> {})
       \<and> isEventsCollides a b = isEventsCollides b a"
  using assms unfolding ivl_inter_nonempty isEventsCollides_def by auto

theorem isEventsCollides_intersect_witness:
  "(isEventsCollides \<lparr>ev_id = Num 1, ev_start = 0, ev_end = 60\<rparr>
                     \<lparr>ev_id = Num 2, ev_start = 30, ev_end = 90\<rparr> \<longleftrightarrow>
      {0 ..< 60} \<inter> {30 ..< (90::int)} \<noteq> {})
   \<and> isEventsCollides \<lparr>ev_id = Num 1, ev_start = 0, ev_end = 60\<rparr>
                       \<lparr>ev_id = Num 2, ev_start = 30, ev_end = 90\<rparr>
     = isEventsCollides \<lparr>ev_id = Num 2, ev_start = 30, ev_end = 90\<rparr>
                        \<lparr>ev_id = Num 1, ev_start = 0, ev_end = 60\<rparr>"
  using isEventsCollides_intersect
          [of "\<lparr>ev_id = Num 1, ev_start = 0, ev_end = 60\<rparr>" "\<lparr>ev_id = Num 2, ev_start = 30, ev_end = 90\<rparr>"]
  by (simp add: isEventsCollides_def ivl_inter_nonempty)

section \<open>Colliding events that overlap on the screen\<close>

text \<open>
  Claim C1 says that two output records whose time intervals collide never overlap
  horizontally. On the four events below the third one is put under the first, in the
  window left of the second, and the fourth, which collides with the third, keeps the
  whole width: the two overlap.
\<close>

theorem layOutDay_overlapping_records:
  "layOutDay (JsArray
       [Some \<lparr>ev_id = Num 1, ev_start = 0, ev_end = 120\<rparr>,
        Some \<lparr>ev_id = Num 2, ev_start = 60, ev_end = 180\<rparr>,
        Some \<lparr>ev_id = Num 3, ev_start = 120, ev_end = 240\<rparr>,
        Some \<lparr>ev_id = Num 4, ev_start = 180, ev_end = 240\<rparr>])
   = Inr [\<lparr>ev_id = Num 1, ev_start = 0, ev_end = 120, ev_left = 10, ev_width = 310, ev_top = 0\<rparr>,
          \<lparr>ev_id = Num 2, ev_start = 60, ev_end = 180, ev_left = 320, ev_width = 310, ev_top = 60\<rparr>,
          \<lparr>ev_id = Num 4, ev_start = 180, ev_end = 240, ev_left = 10, ev_width = 620, ev_top = 180\<rparr>,
          \<lparr>ev_id = Num 3, ev_start = 120, ev_end = 240, ev_left = 10, ev_width = 310, ev_top = 120\<rparr>]
   \<and> isEventsCollides
         \<lparr>ev_id = Num 4, ev_start = 180, ev_end = 240, ev_left = 10, ev_width = 620, ev_top = 180\<rparr>
         \<lparr>ev_id = Num 3, ev_start = 120, ev_end = 240, ev_left = 10, ev_width = 310, ev_top = 120\<rparr>
   \<and> spansOverlap
         \<lparr>ev_id = Num 4, ev_start = 180, ev_end = 240, ev_left = 10, ev_width = 620, ev_top = 180\<rparr>
         \<lparr>ev_id = Num 3, ev_start = 120, ev_end = 240, ev_left = 10, ev_width = 310, ev_top = 120\<rparr>"
proof -
  have "(10::int) \<in> {10 ..< 10 + 620} \<inter> {10 ..< 10 + 310}" by simp
  then have "{(10::int) ..< 10 + 620} \<inter> {10 ..< 10 + 310} \<noteq> {}" by blast
  then have ov: "spansOverlap
         \<lparr>ev_id = Num 4, ev_start = 180, ev_end = 240, ev_left = 10, ev_width = 620, ev_top = 180\<rparr>
         \<lparr>ev_id = Num 3, ev_start = 120, ev_end = 240, ev_left = 10, ev_width = 310, ev_top = 120\<rparr>"
    by (simp add: spansOverlap_def)
  have co: "isEventsCollides
         \<lparr>ev_id = Num 4, ev_start = 180, ev_end = 240, ev_left = 10, ev_width = 620, ev_top = 180\<rparr>
         \<lparr>ev_id = Num 3, ev_start = 120, ev_end = 240, ev_left = 10, ev_width = 310, ev_top = 120\<rparr>"
    by (simp add: isEventsCollides_def)
  have run: "layOutDay (JsArray
       [Some \<lparr>ev_id = Num 1, ev_start = 0, ev_end = 120\<rparr>,
        Some \<lparr>ev_id = Num 2, ev_start = 60, ev_end = 180\<rparr>,
        Some \<lparr>ev_id = Num 3, ev_start = 120, ev_end = 240\<rparr>,
        Some \<lparr>ev_id = Num 4, ev_start = 180, ev_end = 240\<rparr>])
   = Inr [\<lparr>ev_id = Num 1, ev_start = 0, ev_end = 120, ev_left = 10, ev_width = 310, ev_top = 0\<rparr>,
          \<lparr>ev_id = Num 2, ev_start = 60, ev_end = 180, ev_left = 320, ev_width = 310, ev_top = 60\<rparr>,
          \<lparr>ev_id = Num 4, ev_start = 180, ev_end = 240, ev_left = 10, ev_width = 620, ev_top = 180\<rparr>,
          \<lparr>ev_id = Num 3, ev_start = 120, ev_end = 240, ev_left = 10, ev_width = 310, ev_top = 120\<rparr>]"
    by code_simp
  from run co ov show ?thesis by blast
qed

section \<open>The collision graph\<close>

lemma strip_fields [simp]:
  "ev_id (strip e) = ev_id e" "ev_start (strip e) = ev_start e" "ev_end (strip e) = ev_end e"
  "ev_left (strip e) = ev_left e" "ev_width (strip e) = ev_width e"
  "hasEventUnder (strip e) = hasEventUnder e" "topEventId (strip e) = topEventId e"
  "collisions (strip e) = []"
  by (simp_all add: strip_def)

lemma strip_pushCollision [simp]: "strip (pushCollision j e) = strip e"
  by (simp add: strip_def pushCollision_def)

lemma strip_strip [simp]: "strip (strip e) = strip e"
  by (simp add: strip_def)

lemma strip_collisions_update [simp]: "strip (e\<lparr>collisions := cs\<rparr>) = strip e"
  by (simp add: strip_def)

lemma isEventsCollides_strip [simp]:
  "isEventsCollides (strip a) b = isEventsCollides a b"
  "isEventsCollides a (strip b) = isEventsCollides a b"
  by (simp_all add: isEventsCollides_def)

lemma map_strip_update:
  "strip x = strip (es ! i) \<Longrightarrow> map strip (es[i := x]) = map strip es"
  by (cases "i < length es") (simp_all add: map_update list_update_same_conv list_update_beyond)

lemma map_strip_nth:
  "map strip es = map strip es' \<Longrightarrow> k < length es \<Longrightarrow> strip (es ! k) = strip (es' ! k)"
  by (metis length_map nth_map)

lemma map_strip_updateCollisions_inner [simp]:
  "map strip (updateCollisions_inner es i j) = map strip es"
proof (induction es i j rule: updateCollisions_inner.induct)
  case (1 es i j)
  show ?case
  proof (cases "j < length es")
    case True
    let ?es1 = "es[i := pushCollision j (es ! i)]"
    let ?es2 = "?es1[j := pushCollision i (?es1 ! j)]"
    have a: "map strip ?es1 = map strip es" by (rule map_strip_update) simp
    have "map strip ?es2 = map strip ?es1" by (rule map_strip_update) simp
    with a have b: "map strip ?es2 = map strip es" by simp
    from True 1 b show ?thesis
      by (subst updateCollisions_inner.simps) (simp split: if_splits)
  next
    case False
    then show ?thesis by (subst updateCollisions_inner.simps) simp
  qed
qed

lemma map_strip_updateCollisions_outer [simp]:
  "map strip (updateCollisions_outer es i) = map strip es"
  by (induction es i rule: updateCollisions_outer.induct)
     (subst updateCollisions_outer.simps, simp)

lemma map_strip_updateCollisions [simp]:
  "map strip (updateCollisions es) = map strip es"
  by (simp add: updateCollisions_def strip_def comp_def)

lemma filter_upt_snoc:
  assumes "m < n" "Q m" "\<forall>p<n. p \<noteq> m \<longrightarrow> Q p = P p" "\<forall>p. m \<le> p \<and> p < n \<longrightarrow> \<not> P p"
  shows "filter Q [0..<n] = filter P [0..<n] @ [m]"
proof -
  have split: "[0..<n] = [0..<m] @ [m] @ [Suc m..<n]"
    using assms(1) by (metis append_Cons append_Nil le_add2 le_add_same_cancel2 less_imp_add_positive upt_add_eq_append upt_rec)
  have 1: "filter Q [0..<m] = filter P [0..<m]"
    using assms(1,3) by (intro filter_cong) auto
  have 2: "filter Q [Suc m..<n] = []" using assms(3,4) by (auto simp: filter_empty_conv)
  have 3: "filter P [Suc m..<n] = []" using assms(4) by (auto simp: filter_empty_conv)
  have 4: "\<not> P m" using assms(1,4) by auto
  show ?thesis by (subst (1 2) split) (simp add: 1 2 3 4 assms(2))
qed

lemma collsUpTo_skip:
  assumes "\<not> isEventsCollides (bs ! i) (bs ! j)" "i < j"
  shows "collsUpTo bs i (Suc j) k = collsUpTo bs i j k"
  unfolding collsUpTo_def
proof (rule filter_cong[OF refl])
  fix p assume "p \<in> set [0..<length bs]"
  show "(p \<noteq> k \<and> isEventsCollides (bs ! min p k) (bs ! max p k)
                 \<and> (min p k < i \<or> (min p k = i \<and> max p k < Suc j)))
      = (p \<noteq> k \<and> isEventsCollides (bs ! min p k) (bs ! max p k)
                 \<and> (min p k < i \<or> (min p k = i \<and> max p k < j)))"
    using assms by (cases "min p k = i \<and> max p k = j") auto
qed

lemma collsUpTo_other:
  assumes "k \<noteq> i" "k \<noteq> j" "i < j"
  shows "collsUpTo bs i (Suc j) k = collsUpTo bs i j k"
  unfolding collsUpTo_def
proof (rule filter_cong[OF refl])
  fix p assume "p \<in> set [0..<length bs]"
  show "(p \<noteq> k \<and> isEventsCollides (bs ! min p k) (bs ! max p k)
                 \<and> (min p k < i \<or> (min p k = i \<and> max p k < Suc j)))
      = (p \<noteq> k \<and> isEventsCollides (bs ! min p k) (bs ! max p k)
                 \<and> (min p k < i \<or> (min p k = i \<and> max p k < j)))"
    using assms by (auto simp: min_def max_def split: if_splits)
qed

lemma collsUpTo_left:
  assumes "isEventsCollides (bs ! i) (bs ! j)" "i < j" "j < length bs"
  shows "collsUpTo bs i (Suc j) i = collsUpTo bs i j i @ [j]"
  unfolding collsUpTo_def
  by (rule filter_upt_snoc) (use assms in \<open>auto simp: min_def max_def split: if_splits\<close>)

lemma collsUpTo_right:
  assumes "isEventsCollides (bs ! i) (bs ! j)" "i < j" "j < length bs"
  shows "collsUpTo bs i (Suc j) j = collsUpTo bs i j j @ [i]"
  unfolding collsUpTo_def
  by (rule filter_upt_snoc) (use assms in \<open>auto simp: min_def max_def split: if_splits\<close>)

lemma collsInv_step:
  assumes inv: "collsInv bs es i j" and ij: "i < j" and j: "j < length es"
  shows "collsInv bs
           (if isEventsCollides (es ! i) (es ! j)
            then (es[i := pushCollision j (es ! i)])
                   [j := pushCollision i ((es[i := pushCollision j (es ! i)]) ! j)]
            else es) i (Suc j)"
proof -
  from inv have bs: "map strip es = bs"
    and cs: "\<And>k. k < length bs \<Longrightarrow> collisions (es ! k) = collsUpTo bs i j k"
    by (auto simp: collsInv_def)
  from bs have len: "length bs = length es" by auto
  have bi: "bs ! i = strip (es ! i)" and bj: "bs ! j = strip (es ! j)"
    using bs ij j by auto
  have ceq: "isEventsCollides (bs ! i) (bs ! j) = isEventsCollides (es ! i) (es ! j)"
    by (simp add: bi bj)
  show ?thesis
  proof (cases "isEventsCollides (es ! i) (es ! j)")
    case False
    with ceq have "\<not> isEventsCollides (bs ! i) (bs ! j)" by simp
    from collsUpTo_skip[OF this ij] False bs cs show ?thesis
      by (simp add: collsInv_def)
  next
    case True
    let ?es1 = "es[i := pushCollision j (es ! i)]"
    let ?es2 = "?es1[j := pushCollision i (?es1 ! j)]"
    have a: "map strip ?es1 = map strip es" by (rule map_strip_update) simp
    have "map strip ?es2 = map strip ?es1" by (rule map_strip_update) simp
    with a bs have b: "map strip ?es2 = bs" by simp
    from True ceq have C: "isEventsCollides (bs ! i) (bs ! j)" by simp
    have "collisions (?es2 ! k) = collsUpTo bs i (Suc j) k" if k: "k < length bs" for k
    proof -
      consider "k = i" | "k = j" | "k \<noteq> i" "k \<noteq> j" by blast
      then show ?thesis
      proof cases
        case 1
        with ij j have "collisions (?es2 ! k) = collisions (es ! i) @ [j]"
          by (simp add: pushCollision_def)
        with 1 cs[of i] k collsUpTo_left[OF C ij] j len show ?thesis by simp
      next
        case 2
        with ij j have "collisions (?es2 ! k) = collisions (es ! j) @ [i]"
          by (simp add: pushCollision_def)
        with 2 cs[of j] k collsUpTo_right[OF C ij] j len show ?thesis by simp
      next
        case 3
        then have "collisions (?es2 ! k) = collisions (es ! k)" by simp
        with 3 cs[OF k] collsUpTo_other[OF 3 ij] show ?thesis by simp
      qed
    qed
    with True b show ?thesis by (simp add: collsInv_def)
  qed
qed

lemma collsInv_inner:
  "collsInv bs es i j \<Longrightarrow> i < j \<Longrightarrow>
   collsInv bs (updateCollisions_inner es i j) i (max j (length es))"
proof (induction es i j rule: updateCollisions_inner.induct)
  case (1 es i j)
  show ?case
  proof (cases "j < length es")
    case True
    define es' where "es' = (if isEventsCollides (es ! i) (es ! j)
            then (es[i := pushCollision j (es ! i)])
                   [j := pushCollision i ((es[i := pushCollision j (es ! i)]) ! j)]
            else es)"
    have st: "collsInv bs es' i (Suc j)"
      unfolding es'_def using collsInv_step[OF "1.prems"(1,2) True] .
    have len: "length es' = length es" by (simp add: es'_def)
    have "collsInv bs (updateCollisions_inner es' i (j + 1)) i (max (j + 1) (length es'))"
      using "1.IH"[OF True] st "1.prems"(2) unfolding es'_def by simp
    moreover have "max (j + 1) (length es') = max j (length es)"
      using True len by simp
    moreover have "updateCollisions_inner es i j = updateCollisions_inner es' i (j + 1)"
      unfolding es'_def using True by (subst updateCollisions_inner.simps) simp
    ultimately show ?thesis by metis
  next
    case False
    then have "updateCollisions_inner es i j = es"
      by (subst updateCollisions_inner.simps) simp
    moreover from False have "max j (length es) = j" by simp
    ultimately show ?thesis using "1.prems" by simp
  qed
qed

lemma collsUpTo_next:
  "k < length bs \<Longrightarrow> collsUpTo bs i (length bs) k = collsUpTo bs (Suc i) (Suc (Suc i)) k"
  unfolding collsUpTo_def
  by (rule filter_cong[OF refl]) (auto simp: min_def max_def split: if_splits)

lemma collsUpTo_final:
  "k < length bs \<Longrightarrow> length bs - 1 \<le> i \<Longrightarrow> collsUpTo bs i (Suc i) k = collsAll bs k"
  unfolding collsUpTo_def collsAll_def
  by (rule filter_cong[OF refl]) (auto simp: min_def max_def split: if_splits)

lemma collsUpTo_init: "collsUpTo bs 0 (Suc 0) k = []"
  unfolding collsUpTo_def by (auto simp: filter_empty_conv min_def max_def split: if_splits)

lemma collsInv_outer:
  "collsInv bs es i (Suc i) \<Longrightarrow>
   map strip (updateCollisions_outer es i) = bs \<and>
   (\<forall>k<length bs. collisions (updateCollisions_outer es i ! k) = collsAll bs k)"
proof (induction es i rule: updateCollisions_outer.induct)
  case (1 es i)
  from "1.prems" have len: "length bs = length es" by (auto simp: collsInv_def)
  show ?case
  proof (cases "i < length es - 1")
    case True
    define es' where "es' = updateCollisions_inner es i (i + 1)"
    have "collsInv bs es' i (max (Suc i) (length es))"
      unfolding es'_def using collsInv_inner[OF "1.prems", of ] by simp
    moreover have "max (Suc i) (length es) = length bs" using True len by simp
    ultimately have "collsInv bs es' i (length bs)" by simp
    then have "collsInv bs es' (Suc i) (Suc (Suc i))"
      by (simp add: collsInv_def collsUpTo_next)
    from "1.IH"[OF True] this have
      "map strip (updateCollisions_outer es' (i + 1)) = bs \<and>
       (\<forall>k<length bs. collisions (updateCollisions_outer es' (i + 1) ! k) = collsAll bs k)"
      unfolding es'_def by simp
    moreover have "updateCollisions_outer es i = updateCollisions_outer es' (i + 1)"
      unfolding es'_def using True by (subst updateCollisions_outer.simps) simp
    ultimately show ?thesis by metis
  next
    case False
    then have eq: "updateCollisions_outer es i = es"
      by (subst updateCollisions_outer.simps) simp
    from False len have "length bs - 1 \<le> i" by simp
    with "1.prems" show ?thesis unfolding eq
      by (simp add: collsInv_def collsUpTo_final)
  qed
qed

lemma collisions_updateCollisions:
  assumes "k < length es"
  shows "collisions (updateCollisions es ! k) = collsAll (map strip es) k"
proof -
  have "collsInv (map strip es) (map (\<lambda>e. e\<lparr>collisions := []\<rparr>) es) 0 (Suc 0)"
    by (simp add: collsInv_def collsUpTo_init strip_def comp_def)
  from collsInv_outer[OF this] assms show ?thesis
    by (simp add: updateCollisions_def)
qed

lemma set_collsAll:
  "set (collsAll bs k) = {p. p < length bs \<and> p \<noteq> k \<and> isEventsCollides (bs ! min p k) (bs ! max p k)}"
  by (auto simp: collsAll_def)

lemma sorted_collsAll: "sorted_wrt (<) (collsAll bs k)"
  unfolding collsAll_def by (rule sorted_wrt_filter) simp

lemma collides_min_max:
  assumes "\<forall>e \<in> set es. wellFormed e" "i < length es" "j < length es"
  shows "isEventsCollides (map strip es ! min i j) (map strip es ! max i j)
         = isEventsCollides (es ! i) (es ! j)"
proof -
  have wi: "ev_start (es ! i) < ev_end (es ! i)" and wj: "ev_start (es ! j) < ev_end (es ! j)"
    using assms by (auto simp: wellFormed_def)
  show ?thesis
  proof (cases "i \<le> j")
    case True
    with assms show ?thesis by (simp add: min_def max_def)
  next
    case False
    with assms have "isEventsCollides (map strip es ! min i j) (map strip es ! max i j)
        = isEventsCollides (es ! j) (es ! i)" by (simp add: min_def max_def)
    also have "\<dots> = isEventsCollides (es ! i) (es ! j)"
      by (rule isEventsCollides_sym[OF wj wi])
    finally show ?thesis .
  qed
qed

text \<open>
  Claim C6. After \<open>updateCollisions\<close> on any array, each collisions list is strictly
  ascending, holds indices of the array only and never the event's own index. When the
  events are well formed, for distinct indices \<open>i\<close> and \<open>j\<close>: \<open>j\<close> is in the collisions
  list of event \<open>i\<close> exactly when \<open>i\<close> is in the list of event \<open>j\<close>, and exactly when the
  two events collide.
\<close>

theorem updateCollisions_adjacency:
  "length (updateCollisions es) = length es
   \<and> (\<forall>k<length es.
         sorted_wrt (<) (collisions (updateCollisions es ! k))
       \<and> k \<notin> set (collisions (updateCollisions es ! k))
       \<and> set (collisions (updateCollisions es ! k)) \<subseteq> {0..<length es})
   \<and> ((\<forall>e \<in> set es. wellFormed e) \<longrightarrow>
        (\<forall>i<length es. \<forall>j<length es. i \<noteq> j \<longrightarrow>
           (j \<in> set (collisions (updateCollisions es ! i))
              \<longleftrightarrow> i \<in> set (collisions (updateCollisions es ! j)))
         \<and> (j \<in> set (collisions (updateCollisions es ! i))
              \<longleftrightarrow> isEventsCollides (es ! i) (es ! j))))"
proof (intro conjI allI impI)
  show "length (updateCollisions es) = length es" by simp
next
  fix k assume k: "k < length es"
  then have ck: "collisions (updateCollisions es ! k) = collsAll (map strip es) k"
    by (rule collisions_updateCollisions)
  show "sorted_wrt (<) (collisions (updateCollisions es ! k))"
    unfolding ck by (rule sorted_collsAll)
  show "k \<notin> set (collisions (updateCollisions es ! k))"
    unfolding ck by (simp add: set_collsAll)
  show "set (collisions (updateCollisions es ! k)) \<subseteq> {0..<length es}"
    unfolding ck by (auto simp: set_collsAll)
next
  fix i j
  assume wf: "\<forall>e \<in> set es. wellFormed e" and i: "i < length es" and j: "j < length es"
    and ne: "i \<noteq> j"
  have ci: "collisions (updateCollisions es ! i) = collsAll (map strip es) i"
    and cj: "collisions (updateCollisions es ! j) = collsAll (map strip es) j"
    using i j by (simp_all add: collisions_updateCollisions)
  have a: "j \<in> set (collsAll (map strip es) i) \<longleftrightarrow> isEventsCollides (es ! i) (es ! j)"
    using i j ne collides_min_max[OF wf i j]
    by (simp add: set_collsAll min.commute max.commute)
  have b: "i \<in> set (collsAll (map strip es) j) \<longleftrightarrow> isEventsCollides (es ! i) (es ! j)"
    using i j ne collides_min_max[OF wf i j]
    by (simp add: set_collsAll)
  from a b show "j \<in> set (collisions (updateCollisions es ! i))
              \<longleftrightarrow> i \<in> set (collisions (updateCollisions es ! j))"
    unfolding ci cj by blast
  from a show "j \<in> set (collisions (updateCollisions es ! i))
              \<longleftrightarrow> isEventsCollides (es ! i) (es ! j)"
    unfolding ci by blast
qed

theorem updateCollisions_adjacency_witness:
  "list_all wellFormed twoEvents \<and> length (updateCollisions twoEvents) = 2
     \<and> (1 \<in> set (collisions (updateCollisions twoEvents ! 0))
            \<longleftrightarrow> 0 \<in> set (collisions (updateCollisions twoEvents ! 1)))
     \<and> (1 \<in> set (collisions (updateCollisions twoEvents ! 0))
            \<longleftrightarrow> isEventsCollides (twoEvents ! 0) (twoEvents ! 1))
     \<and> isEventsCollides (twoEvents ! 0) (twoEvents ! 1)
     \<and> sorted_wrt (<) (collisions (updateCollisions twoEvents ! 0))
     \<and> 0 \<notin> set (collisions (updateCollisions twoEvents ! 0))
     \<and> set (collisions (updateCollisions twoEvents ! 0)) \<subseteq> {0..<length twoEvents}
     \<and> sorted_wrt (<) (collisions (updateCollisions twoEvents ! 1))
     \<and> 1 \<notin> set (collisions (updateCollisions twoEvents ! 1))
     \<and> length staleEvent = 1 \<and> collisions (staleEvent ! 0) = [0, 1]
     \<and> sorted_wrt (<) (collisions (updateCollisions staleEvent ! 0))
     \<and> 0 \<notin> set (collisions (updateCollisions staleEvent ! 0))
     \<and> set (collisions (updateCollisions staleEvent ! 0)) \<subseteq> {0..<length staleEvent}"
proof -
  have h1: "\<forall>e \<in> set twoEvents. wellFormed e" by (simp add: twoEvents_def wellFormed_def)
  have h2: "0 < length twoEvents" and h3: "1 < length twoEvents" and h4: "(0::nat) \<noteq> 1"
    and l2: "length twoEvents = 2"
    by (simp_all add: twoEvents_def)
  have h1': "list_all wellFormed twoEvents" using h1 by (simp add: list_all_iff)
  have c: "isEventsCollides (twoEvents ! 0) (twoEvents ! 1)"
    by (simp add: twoEvents_def isEventsCollides_def)
  have s1: "length staleEvent = 1" and s2: "collisions (staleEvent ! 0) = [0, 1]"
    and s3: "0 < length staleEvent"
    by (simp_all add: staleEvent_def)
  note two = updateCollisions_adjacency[of twoEvents]
  note one = updateCollisions_adjacency[of staleEvent]
  from two l2 have a: "length (updateCollisions twoEvents) = 2" by simp
  from two h2 have b0: "sorted_wrt (<) (collisions (updateCollisions twoEvents ! 0))
       \<and> 0 \<notin> set (collisions (updateCollisions twoEvents ! 0))
       \<and> set (collisions (updateCollisions twoEvents ! 0)) \<subseteq> {0..<length twoEvents}"
    by blast
  from two h3 have b1: "sorted_wrt (<) (collisions (updateCollisions twoEvents ! 1))
       \<and> 1 \<notin> set (collisions (updateCollisions twoEvents ! 1))"
    by blast
  from two h1 h2 h3 h4 have d: "(1 \<in> set (collisions (updateCollisions twoEvents ! 0))
            \<longleftrightarrow> 0 \<in> set (collisions (updateCollisions twoEvents ! 1)))
     \<and> (1 \<in> set (collisions (updateCollisions twoEvents ! 0))
            \<longleftrightarrow> isEventsCollides (twoEvents ! 0) (twoEvents ! 1))"
    by blast
  from one s3 have e: "sorted_wrt (<) (collisions (updateCollisions staleEvent ! 0))
     \<and> 0 \<notin> set (collisions (updateCollisions staleEvent ! 0))
     \<and> set (collisions (updateCollisions staleEvent ! 0)) \<subseteq> {0..<length staleEvent}"
    by blast
  from h1' a d c b0 b1 s1 s2 e show ?thesis by blast
qed

section \<open>The nesting extractor\<close>

lemma updateCollisions_nth_fields:
  assumes "k < length es"
  shows "ev_id (updateCollisions es ! k) = ev_id (es ! k)"
    and "ev_start (updateCollisions es ! k) = ev_start (es ! k)"
    and "ev_end (updateCollisions es ! k) = ev_end (es ! k)"
    and "ev_left (updateCollisions es ! k) = ev_left (es ! k)"
    and "ev_width (updateCollisions es ! k) = ev_width (es ! k)"
    and "hasEventUnder (updateCollisions es ! k) = hasEventUnder (es ! k)"
    and "topEventId (updateCollisions es ! k) = topEventId (es ! k)"
proof -
  have "strip (updateCollisions es ! k) = strip (es ! k)"
    using assms map_strip_nth[OF map_strip_updateCollisions, of k es] by simp
  then show "ev_id (updateCollisions es ! k) = ev_id (es ! k)"
    and "ev_start (updateCollisions es ! k) = ev_start (es ! k)"
    and "ev_end (updateCollisions es ! k) = ev_end (es ! k)"
    and "ev_left (updateCollisions es ! k) = ev_left (es ! k)"
    and "ev_width (updateCollisions es ! k) = ev_width (es ! k)"
    and "hasEventUnder (updateCollisions es ! k) = hasEventUnder (es ! k)"
    and "topEventId (updateCollisions es ! k) = topEventId (es ! k)"
    by (metis strip_fields)+
qed

lemma map_ev_id_updateCollisions [simp]:
  "map ev_id (updateCollisions es) = map ev_id es"
  by (rule nth_equalityI) (simp_all add: updateCollisions_nth_fields)

lemma map_topEventId_updateCollisions [simp]:
  "map topEventId (updateCollisions es) = map topEventId es"
  by (rule nth_equalityI) (simp_all add: updateCollisions_nth_fields)

lemma getEventsUnder_inner_Some:
  "getEventsUnder_inner es i j0 = Some j \<Longrightarrow>
   j0 \<le> j \<and> j < i \<and> \<not> hasEventUnder (es ! j) \<and> \<not> isEventsCollides (es ! j) (es ! i)"
proof (induction es i j0 rule: getEventsUnder_inner.induct)
  case (1 es i j0)
  from "1.prems" have lt: "j0 < i"
    by (subst (asm) getEventsUnder_inner.simps) (simp split: if_splits)
  show ?case
  proof (cases "\<not> isEventsCollides (es ! j0) (es ! i) \<and> \<not> hasEventUnder (es ! j0)")
    case True
    with lt "1.prems" have "j = j0"
      by (subst (asm) getEventsUnder_inner.simps) simp
    with True lt show ?thesis by simp
  next
    case False
    with lt "1.prems" have "getEventsUnder_inner es i (j0 + 1) = Some j"
      by (subst (asm) getEventsUnder_inner.simps) (simp split: if_splits)
    from "1.IH"[OF lt False this] show ?thesis by simp
  qed
qed

lemma getEventsUnder_loop_unfold:
  "getEventsUnder_loop es eventsUnder start i =
     (if i < length es
      then (if getLeftCollisionsCount (collisions (es ! i)) i \<noteq> 0
            then (case getEventsUnder_inner es i start of
                    Some j \<Rightarrow> getEventsUnder_loop (moveUnder es i j)
                               (eventsUnder @ [(es ! i)\<lparr>topEventId := Some (ev_id (es ! j))\<rparr>]) start i
                  | None \<Rightarrow> getEventsUnder_loop es eventsUnder start (i + 1))
            else getEventsUnder_loop es eventsUnder i (i + 1))
      else (es, eventsUnder))"
  by (subst getEventsUnder_loop.simps) (simp add: moveUnder_def Let_def split: option.split)

lemma length_splice1: "i < length es \<Longrightarrow> length (splice1 es i) = length es - 1"
  by (simp add: splice1_def)

lemma nth_splice1_below: "k < i \<Longrightarrow> i < length es \<Longrightarrow> splice1 es i ! k = es ! k"
  by (simp add: splice1_def nth_append)

lemma mset_splice1: "i < length es \<Longrightarrow> mset (splice1 es i) + {#es ! i#} = mset es"
  unfolding splice1_def
  by (metis Cons_nth_drop_Suc append_take_drop_id mset.simps(2) union_code union_mset_add_mset_right add_mset_add_single)

lemma length_moveUnder: "i < length es \<Longrightarrow> length (moveUnder es i j) = length es - 1"
  by (simp add: moveUnder_def length_splice1)

lemma moveUnder_nth_id:
  "k < length es - 1 \<Longrightarrow> i < length es \<Longrightarrow> ev_id (moveUnder es i j ! k) = ev_id (splice1 es i ! k)"
  unfolding moveUnder_def
  by (cases "k = j") (simp_all add: updateCollisions_nth_fields length_splice1)

lemma moveUnder_ids: "i < length es \<Longrightarrow> map ev_id (moveUnder es i j) = map ev_id (splice1 es i)"
  by (rule nth_equalityI) (simp_all add: length_moveUnder length_splice1 moveUnder_nth_id)

lemma moveUnder_flag:
  "k < length es - 1 \<Longrightarrow> i < length es \<Longrightarrow>
   hasEventUnder (moveUnder es i j ! k) = (k = j \<or> hasEventUnder (splice1 es i ! k))"
  unfolding moveUnder_def
  by (cases "k = j") (simp_all add: updateCollisions_nth_fields length_splice1)

lemma getEventsUnder_loop_rule:
  assumes init: "P es eventsUnder i"
    and move: "\<And>es eventsUnder i j. P es eventsUnder i \<Longrightarrow> i < length es \<Longrightarrow> j < i \<Longrightarrow>
            \<not> hasEventUnder (es ! j) \<Longrightarrow>
            P (moveUnder es i j)
              (eventsUnder @ [(es ! i)\<lparr>topEventId := Some (ev_id (es ! j))\<rparr>]) i"
    and skip: "\<And>es eventsUnder i. P es eventsUnder i \<Longrightarrow> i < length es \<Longrightarrow>
            P es eventsUnder (Suc i)"
  shows "\<exists>i'. P (fst (getEventsUnder_loop es eventsUnder start i))
                 (snd (getEventsUnder_loop es eventsUnder start i)) i'"
  using init
proof (induction es eventsUnder start i rule: getEventsUnder_loop.induct)
  case (1 es eventsUnder start i)
  show ?case
  proof (cases "i < length es")
    case False
    then have "getEventsUnder_loop es eventsUnder start i = (es, eventsUnder)"
      by (subst getEventsUnder_loop_unfold) simp
    with "1.prems" show ?thesis by auto
  next
    case lt: True
    show ?thesis
    proof (cases "getLeftCollisionsCount (collisions (es ! i)) i \<noteq> 0")
      case False
      then have eq: "getEventsUnder_loop es eventsUnder start i
                   = getEventsUnder_loop es eventsUnder i (i + 1)"
        using lt by (subst getEventsUnder_loop_unfold) simp
      from skip[OF "1.prems" lt] have "P es eventsUnder (i + 1)" by simp
      from "1.IH"(3)[OF lt _ this] False show ?thesis unfolding eq by simp
    next
      case nz: True
      show ?thesis
      proof (cases "getEventsUnder_inner es i start")
        case None
        then have eq: "getEventsUnder_loop es eventsUnder start i
                     = getEventsUnder_loop es eventsUnder start (i + 1)"
          using lt nz by (subst getEventsUnder_loop_unfold) simp
        from skip[OF "1.prems" lt] have "P es eventsUnder (i + 1)" by simp
        from "1.IH"(1)[OF lt nz None this] show ?thesis unfolding eq .
      next
        case (Some j)
        then have eq: "getEventsUnder_loop es eventsUnder start i
                     = getEventsUnder_loop (moveUnder es i j)
                         (eventsUnder @ [(es ! i)\<lparr>topEventId := Some (ev_id (es ! j))\<rparr>]) start i"
          using lt nz by (subst getEventsUnder_loop_unfold) simp
        from getEventsUnder_inner_Some[OF Some]
        have j: "j < i" "\<not> hasEventUnder (es ! j)" by auto
        have P': "P (moveUnder es i j)
              (eventsUnder @ [(es ! i)\<lparr>topEventId := Some (ev_id (es ! j))\<rparr>]) i"
          by (rule move[OF "1.prems" lt j])
        have "\<exists>i'. P (fst (getEventsUnder_loop (moveUnder es i j)
                         (eventsUnder @ [(es ! i)\<lparr>topEventId := Some (ev_id (es ! j))\<rparr>]) start i))
                      (snd (getEventsUnder_loop (moveUnder es i j)
                         (eventsUnder @ [(es ! i)\<lparr>topEventId := Some (ev_id (es ! j))\<rparr>]) start i)) i'"
          using "1.IH"(2)[OF lt nz Some refl refl refl] P'
          by (simp add: moveUnder_def)
        then show ?thesis unfolding eq .
      qed
    qed
  qed
qed

lemma moveUnder_below:
  assumes "k < i" "i < length es"
  shows "ev_id (moveUnder es i j ! k) = ev_id (es ! k)"
    and "hasEventUnder (moveUnder es i j ! k) = (k = j \<or> hasEventUnder (es ! k))"
  using assms by (simp_all add: moveUnder_nth_id moveUnder_flag nth_splice1_below)

lemma underInv_move:
  assumes inv: "underInv es eventsUnder i" and lt: "i < length es" and j: "j < i"
  shows "underInv (moveUnder es i j)
           (eventsUnder @ [(es ! i)\<lparr>topEventId := Some (ev_id (es ! j))\<rparr>]) i"
  unfolding underInv_def
proof
  fix u assume "u \<in> set (eventsUnder @ [(es ! i)\<lparr>topEventId := Some (ev_id (es ! j))\<rparr>])"
  then consider "u \<in> set eventsUnder" | "u = (es ! i)\<lparr>topEventId := Some (ev_id (es ! j))\<rparr>"
    by auto
  then show "\<exists>k. k < i \<and> k < length (moveUnder es i j)
          \<and> topEventId u = Some (ev_id (moveUnder es i j ! k))
          \<and> hasEventUnder (moveUnder es i j ! k)"
  proof cases
    case 1
    with inv obtain k where k: "k < i" "topEventId u = Some (ev_id (es ! k))"
       "hasEventUnder (es ! k)" by (auto simp: underInv_def)
    with lt have "k < length (moveUnder es i j)" by (simp add: length_moveUnder)
    with k moveUnder_below[OF k(1) lt, of j] show ?thesis by auto
  next
    case 2
    from j lt have "j < length (moveUnder es i j)" by (simp add: length_moveUnder)
    with 2 j moveUnder_below[OF j lt, of j] show ?thesis by auto
  qed
qed

lemma underInv_skip: "underInv es eventsUnder i \<Longrightarrow> underInv es eventsUnder (Suc i)"
  unfolding underInv_def by (meson less_Suc_eq)

lemma distinct_splice1: "distinct xs \<Longrightarrow> distinct (splice1 xs i)"
proof (cases "i < length xs")
  case True
  assume d: "distinct xs"
  from id_take_nth_drop[OF True] have "xs = take i xs @ xs ! i # drop (Suc i) xs" .
  with d have "distinct (take i xs @ xs ! i # drop (Suc i) xs)" by simp
  then show ?thesis unfolding splice1_def by simp
next
  case False
  assume "distinct xs"
  with False show ?thesis by (simp add: splice1_def)
qed

lemma map_splice1: "map f (splice1 xs i) = splice1 (map f xs) i"
  by (simp add: splice1_def take_map drop_map)

lemma distinctInv_move:
  assumes inv: "distinctInv es eventsUnder i" and lt: "i < length es" and j: "j < i"
    and nf: "\<not> hasEventUnder (es ! j)"
  shows "distinctInv (moveUnder es i j)
           (eventsUnder @ [(es ! i)\<lparr>topEventId := Some (ev_id (es ! j))\<rparr>]) i"
proof -
  from inv have d: "distinct (map ev_id es)" and dt: "distinct (map topEventId eventsUnder)"
    and u: "underInv es eventsUnder i" by (auto simp: distinctInv_def)
  have 1: "distinct (map ev_id (moveUnder es i j))"
    using d lt by (simp add: moveUnder_ids map_splice1 distinct_splice1)
  have "Some (ev_id (es ! j)) \<notin> set (map topEventId eventsUnder)"
  proof
    assume "Some (ev_id (es ! j)) \<in> set (map topEventId eventsUnder)"
    then obtain x where x: "x \<in> set eventsUnder" "topEventId x = Some (ev_id (es ! j))" by auto
    with u obtain k where k: "k < length es" "topEventId x = Some (ev_id (es ! k))"
      "hasEventUnder (es ! k)" by (auto simp: underInv_def)
    with x have "map ev_id es ! k = map ev_id es ! j" using j lt by simp
    moreover have "k < length (map ev_id es)" "j < length (map ev_id es)" using k(1) j lt by simp_all
    ultimately have "k = j" using d nth_eq_iff_index_eq by blast
    with k nf show False by simp
  qed
  with dt have 2: "distinct (map topEventId
        (eventsUnder @ [(es ! i)\<lparr>topEventId := Some (ev_id (es ! j))\<rparr>]))" by simp
  from 1 2 underInv_move[OF u lt j] show ?thesis by (simp add: distinctInv_def)
qed

lemma idsInv_move:
  assumes inv: "idsInv M es eventsUnder i" and lt: "i < length es"
  shows "idsInv M (moveUnder es i j)
           (eventsUnder @ [(es ! i)\<lparr>topEventId := Some (ev_id (es ! j))\<rparr>]) i"
proof -
  from lt have "mset (splice1 (map ev_id es) i) + {#map ev_id es ! i#} = mset (map ev_id es)"
    by (intro mset_splice1) simp
  with lt have "mset (map ev_id (moveUnder es i j)) + {#ev_id (es ! i)#} = mset (map ev_id es)"
    by (simp add: moveUnder_ids map_splice1)
  then have "mset (map ev_id (moveUnder es i j))
           + mset (map ev_id (eventsUnder @ [(es ! i)\<lparr>topEventId := Some (ev_id (es ! j))\<rparr>]))
         = mset (map ev_id es) + mset (map ev_id eventsUnder)"
    by (simp add: ac_simps)
  with inv show ?thesis unfolding idsInv_def by simp
qed

lemma getEventsUnder_cases:
  assumes "getEventsUnder es = (es', eventsUnder)"
  obtains un where "getEventsUnder_loop es [] 0 0 = (es', un)"
    and "map ev_id eventsUnder = map ev_id un" and "map topEventId eventsUnder = map topEventId un"
    and "length eventsUnder = length un"
proof -
  obtain a un where l: "getEventsUnder_loop es [] 0 0 = (a, un)" by (cases "getEventsUnder_loop es [] 0 0")
  with assms have "a = es'" and e: "eventsUnder = (if un \<noteq> [] then updateCollisions un else un)"
    by (auto simp: getEventsUnder_def)
  from e have "map ev_id eventsUnder = map ev_id un" "map topEventId eventsUnder = map topEventId un"
    "length eventsUnder = length un"
    by (simp_all split: if_splits)
  with l \<open>a = es'\<close> that show thesis by blast
qed

lemma getEventsUnder_ids:
  assumes "getEventsUnder es = (es', eventsUnder)"
  shows "mset (map ev_id es') + mset (map ev_id eventsUnder) = mset (map ev_id es)"
proof -
  from assms obtain un where l: "getEventsUnder_loop es [] 0 0 = (es', un)"
    and i: "map ev_id eventsUnder = map ev_id un" by (rule getEventsUnder_cases)
  have "\<exists>i'. idsInv (mset (map ev_id es)) (fst (getEventsUnder_loop es [] 0 0))
                 (snd (getEventsUnder_loop es [] 0 0)) i'"
    by (rule getEventsUnder_loop_rule[where P = "idsInv (mset (map ev_id es))"])
       (simp_all add: idsInv_move, simp_all add: idsInv_def)
  with l i show ?thesis by (simp add: idsInv_def)
qed

lemma getEventsUnder_anchored:
  assumes "getEventsUnder es = (es', eventsUnder)" and u: "u \<in> set eventsUnder"
  shows "\<exists>k<length es'. topEventId u = Some (ev_id (es' ! k)) \<and> hasEventUnder (es' ! k)"
proof -
  from assms(1) obtain un where l: "getEventsUnder_loop es [] 0 0 = (es', un)"
    and t: "map topEventId eventsUnder = map topEventId un" by (rule getEventsUnder_cases)
  have "\<exists>i'. underInv (fst (getEventsUnder_loop es [] 0 0))
                 (snd (getEventsUnder_loop es [] 0 0)) i'"
    by (rule getEventsUnder_loop_rule[where P = underInv])
       (simp_all add: underInv_move underInv_skip, simp add: underInv_def)
  with l obtain i' where inv: "underInv es' un i'" by auto
  from u have "topEventId u \<in> set (map topEventId eventsUnder)" by simp
  with t obtain v where "v \<in> set un" "topEventId v = topEventId u" by auto
  with inv show ?thesis unfolding underInv_def by metis
qed

lemma getEventsUnder_distinct:
  assumes "getEventsUnder es = (es', eventsUnder)" and d: "distinct (map ev_id es)"
  shows "distinct (map ev_id es') \<and> distinct (map topEventId eventsUnder)"
proof -
  from assms(1) obtain un where l: "getEventsUnder_loop es [] 0 0 = (es', un)"
    and t: "map topEventId eventsUnder = map topEventId un" by (rule getEventsUnder_cases)
  have "\<exists>i'. distinctInv (fst (getEventsUnder_loop es [] 0 0))
                 (snd (getEventsUnder_loop es [] 0 0)) i'"
  proof (rule getEventsUnder_loop_rule[where P = distinctInv])
    show "distinctInv es [] 0" using d by (simp add: distinctInv_def underInv_def)
  qed (simp_all add: distinctInv_move, simp add: distinctInv_def underInv_skip)
  with l t show ?thesis by (auto simp: distinctInv_def)
qed

section \<open>The column assigner\<close>

lemma getLeftCollisionsCount_loop_ge:
  "cnt \<le> getLeftCollisionsCount_loop cs eventIdx cnt"
  by (induction cs eventIdx cnt rule: getLeftCollisionsCount_loop.induct)
     (subst getLeftCollisionsCount_loop.simps, auto)

lemma getLeftCollisionsCount_pos:
  assumes "getLeftCollisionsCount cs eventIdx \<noteq> 0"
  shows "cs \<noteq> [] \<and> cs ! 0 < eventIdx"
proof (rule ccontr)
  assume "\<not> (cs \<noteq> [] \<and> cs ! 0 < eventIdx)"
  then have "getLeftCollisionsCount_loop cs eventIdx 0 = 0"
    by (subst getLeftCollisionsCount_loop.simps) auto
  with assms show False by (simp add: getLeftCollisionsCount_def)
qed

lemma getLeftCollisionsCount_zero [simp]: "getLeftCollisionsCount cs 0 = 0"
  unfolding getLeftCollisionsCount_def
  by (subst getLeftCollisionsCount_loop.simps) simp

lemma unplace_fields [simp]:
  "ev_id (unplace e) = ev_id e" "ev_start (unplace e) = ev_start e" "ev_end (unplace e) = ev_end e"
  "collisions (unplace e) = collisions e"
  "hasEventUnder (unplace e) = hasEventUnder e" "topEventId (unplace e) = topEventId e"
  by (simp_all add: unplace_def)

lemma unplace_update [simp]:
  "unplace (e\<lparr>ev_left := l\<rparr>) = unplace e" "unplace (e\<lparr>ev_width := w\<rparr>) = unplace e"
  by (simp_all add: unplace_def)

lemma map_unplace_update:
  "unplace x = unplace (es ! i) \<Longrightarrow> map unplace (es[i := x]) = map unplace es"
  by (cases "i < length es") (simp_all add: map_update list_update_same_conv list_update_beyond)

lemma map_unplace_nth:
  "map unplace es = map unplace es' \<Longrightarrow> k < length es \<Longrightarrow> unplace (es ! k) = unplace (es' ! k)"
  by (metis length_map nth_map)

lemma map_unplace_setLayOutParams_inner [simp]:
  "map unplace (fst (setLayOutParams_inner es minLeft width start i left k)) = map unplace es"
proof (induction es minLeft width start i left k rule: setLayOutParams_inner.induct)
  case (1 es minLeft width start i left k)
  show ?case
  proof (cases "k < i")
    case False
    then show ?thesis by (subst setLayOutParams_inner.simps) simp
  next
    case True
    define left1 where "left1 = (if k = start \<and> left > ev_left (es ! start)
                         then ev_left (es ! start) else left)"
    define es1 where "es1 = es[k := (es ! k)\<lparr>ev_width := width\<rparr>]"
    define es2 where "es2 = es1[k := (es1 ! k)\<lparr>ev_left := max left1 minLeft\<rparr>]"
    have eq: "setLayOutParams_inner es minLeft width start i left k
        = setLayOutParams_inner es2 minLeft width start i (left1 + ev_width (es2 ! k)) (k + 1)"
      using True by (subst setLayOutParams_inner.simps) (simp add: Let_def es2_def es1_def left1_def)
    have "map unplace es1 = map unplace es" unfolding es1_def by (rule map_unplace_update) simp
    moreover have "map unplace es2 = map unplace es1" unfolding es2_def by (rule map_unplace_update) simp
    ultimately have m: "map unplace es2 = map unplace es" by simp
    from "1.IH"[OF True left1_def es1_def es2_def] m show ?thesis unfolding eq by simp
  qed
qed

lemma setLayOutParams_loop_unfold:
  "setLayOutParams_loop es minLeft maxWidth start i =
     (if i < length es
      then (if getLeftCollisionsCount (collisions (es ! i)) i = 0
            then setLayOutParams_loop
                   (es[i := (es ! i)\<lparr>ev_left := minLeft, ev_width := maxWidth\<rparr>])
                   minLeft maxWidth i (i + 1)
            else (let r = setLayOutParams_inner es minLeft
                            (divShl0 maxWidth (int i - int start + 1)) start i
                            (ev_left (es ! (collisions (es ! i) ! 0))) start
                  in setLayOutParams_loop
                       ((fst r)[i := (fst r ! i)\<lparr>ev_left := snd r,
                           ev_width := divShl0 maxWidth (int i - int start + 1)\<rparr>])
                       minLeft maxWidth start (i + 1)))
      else es)"
  by (subst setLayOutParams_loop.simps) (simp add: Let_def split: prod.split)

lemma map_unplace_setLayOutParams_loop [simp]:
  "map unplace (setLayOutParams_loop es minLeft maxWidth start i) = map unplace es"
proof (induction es minLeft maxWidth start i rule: setLayOutParams_loop.induct)
  case (1 es minLeft maxWidth start i)
  show ?case
  proof (cases "i < length es")
    case False
    then show ?thesis by (subst setLayOutParams_loop_unfold) simp
  next
    case lt: True
    show ?thesis
    proof (cases "getLeftCollisionsCount (collisions (es ! i)) i = 0")
      case True
      define es' where "es' = es[i := (es ! i)\<lparr>ev_left := minLeft, ev_width := maxWidth\<rparr>]"
      have "map unplace es' = map unplace es" unfolding es'_def by (rule map_unplace_update) simp
      moreover have "setLayOutParams_loop es minLeft maxWidth start i
          = setLayOutParams_loop es' minLeft maxWidth i (i + 1)"
        using lt True unfolding es'_def by (subst setLayOutParams_loop_unfold) simp
      ultimately show ?thesis using "1.IH"(1)[OF lt True] unfolding es'_def by simp
    next
      case False
      define width where "width = divShl0 maxWidth (int i - int start + 1)"
      define left where "left = ev_left (es ! (collisions (es ! i) ! 0))"
      define r where "r = setLayOutParams_inner es minLeft width start i left start"
      define es' where "es' = (fst r)[i := (fst r ! i)\<lparr>ev_left := snd r, ev_width := width\<rparr>]"
      have eq: "setLayOutParams_loop es minLeft maxWidth start i
          = setLayOutParams_loop es' minLeft maxWidth start (i + 1)"
        using lt False unfolding es'_def r_def width_def left_def
        by (subst setLayOutParams_loop_unfold) (simp add: Let_def)
      have "map unplace es' = map unplace (fst r)" unfolding es'_def
        by (rule map_unplace_update) simp
      then have m: "map unplace es' = map unplace es" by (simp add: r_def)
      have "map unplace (setLayOutParams_loop es' minLeft maxWidth start (i + 1)) = map unplace es'"
        using "1.IH"(2)[OF lt False left_def width_def, of "fst r" "snd r"]
        by (simp add: es'_def r_def)
      with m show ?thesis unfolding eq by simp
    qed
  qed
qed

lemma map_unplace_setLayOutParams [simp]:
  "map unplace (setLayOutParams es minLeft maxWidth) = map unplace es"
  by (simp add: setLayOutParams_def)

lemma length_setLayOutParams [simp]:
  "length (setLayOutParams es minLeft maxWidth) = length es"
  using map_unplace_setLayOutParams[of es minLeft maxWidth] by (metis length_map)

lemma setLayOutParams_nth_fields:
  assumes "k < length es"
  shows "ev_id (setLayOutParams es a b ! k) = ev_id (es ! k)"
    and "ev_start (setLayOutParams es a b ! k) = ev_start (es ! k)"
    and "ev_end (setLayOutParams es a b ! k) = ev_end (es ! k)"
    and "collisions (setLayOutParams es a b ! k) = collisions (es ! k)"
    and "hasEventUnder (setLayOutParams es a b ! k) = hasEventUnder (es ! k)"
    and "topEventId (setLayOutParams es a b ! k) = topEventId (es ! k)"
proof -
  have "unplace (setLayOutParams es a b ! k) = unplace (es ! k)"
    using assms map_unplace_nth[OF map_unplace_setLayOutParams, of k es] by simp
  then show "ev_id (setLayOutParams es a b ! k) = ev_id (es ! k)"
    and "ev_start (setLayOutParams es a b ! k) = ev_start (es ! k)"
    and "ev_end (setLayOutParams es a b ! k) = ev_end (es ! k)"
    and "collisions (setLayOutParams es a b ! k) = collisions (es ! k)"
    and "hasEventUnder (setLayOutParams es a b ! k) = hasEventUnder (es ! k)"
    and "topEventId (setLayOutParams es a b ! k) = topEventId (es ! k)"
    by (metis unplace_fields)+
qed

lemma map_ev_id_setLayOutParams [simp]:
  "map ev_id (setLayOutParams es a b) = map ev_id es"
  by (rule nth_equalityI) (simp_all add: setLayOutParams_nth_fields)

lemma toInt32_id: "0 \<le> x \<Longrightarrow> x < 2 ^ 31 \<Longrightarrow> toInt32 x = x"
  by (simp add: toInt32_def)

lemma divShl0_nonneg:
  assumes "0 \<le> a" "a < 2 ^ 31" "1 \<le> d"
  shows "divShl0 a d = a div d"
proof -
  have e: "sgn a * sgn d * (\<bar>a\<bar> div \<bar>d\<bar>) = a div d"
    using assms by (cases "a = 0") (simp_all add: sgn_if)
  have 1: "0 \<le> a div d" using assms by (simp add: pos_imp_zdiv_nonneg_iff)
  have "a div d \<le> a" using assms by (metis div_by_1 zdiv_mono2 zero_less_one)
  with assms have 2: "a div d < 2 ^ 31" by linarith
  have t: "toInt32 (a div d) = a div d" by (rule toInt32_id[OF 1 2])
  from assms(3) have "d \<noteq> 0" by simp
  then show ?thesis unfolding divShl0_def e t by simp
qed

lemma setLayOutParams_inner_spec:
  assumes "start \<le> k" "k \<le> i" "i \<le> length es" "start < i" "0 \<le> width"
    and "k = start \<longrightarrow> minLeft \<le> left \<and> ev_left (es ! start) = minLeft"
    and "start < k \<longrightarrow> left = minLeft + int (k - start) * width"
  shows "snd (setLayOutParams_inner es minLeft width start i left k)
           = minLeft + int (i - start) * width
       \<and> (\<forall>m<length es.
            (k \<le> m \<and> m < i \<longrightarrow>
               ev_left (fst (setLayOutParams_inner es minLeft width start i left k) ! m)
                 = minLeft + int (m - start) * width
             \<and> ev_width (fst (setLayOutParams_inner es minLeft width start i left k) ! m) = width)
          \<and> (\<not> (k \<le> m \<and> m < i) \<longrightarrow>
               fst (setLayOutParams_inner es minLeft width start i left k) ! m = es ! m))"
  using assms
proof (induction es minLeft width start i left k rule: setLayOutParams_inner.induct)
  case (1 es minLeft width start i left k)
  show ?case
  proof (cases "k < i")
    case False
    with "1.prems" have "k = i" "start < k" by auto
    with "1.prems" show ?thesis by (subst (1 2 3 4) setLayOutParams_inner.simps) simp
  next
    case True
    define left1 where "left1 = (if k = start \<and> left > ev_left (es ! start)
                         then ev_left (es ! start) else left)"
    define es1 where "es1 = es[k := (es ! k)\<lparr>ev_width := width\<rparr>]"
    define es2 where "es2 = es1[k := (es1 ! k)\<lparr>ev_left := max left1 minLeft\<rparr>]"
    define r where "r = setLayOutParams_inner es2 minLeft width start i (left1 + ev_width (es2 ! k)) (k + 1)"
    have eq: "setLayOutParams_inner es minLeft width start i left k = r"
      unfolding r_def
      using True by (subst setLayOutParams_inner.simps) (simp add: Let_def es2_def es1_def left1_def)
    from True "1.prems" have klen: "k < length es" by simp
    have l1: "left1 = minLeft + int (k - start) * width"
      using "1.prems" unfolding left1_def by (cases "k = start") auto
    with "1.prems" have l1ge: "minLeft \<le> left1" by simp
    have len2: "length es2 = length es" by (simp add: es2_def es1_def)
    have k2: "ev_left (es2 ! k) = left1" "ev_width (es2 ! k) = width"
      using klen l1ge by (simp_all add: es2_def es1_def)
    have o2: "m \<noteq> k \<Longrightarrow> es2 ! m = es ! m" for m by (simp add: es2_def es1_def)
    have l2: "left1 + ev_width (es2 ! k) = minLeft + int (k + 1 - start) * width"
      using l1 k2 "1.prems"(1) by (simp add: algebra_simps of_nat_diff)
    have IH: "snd r = minLeft + int (i - start) * width
       \<and> (\<forall>m<length es2.
            (k + 1 \<le> m \<and> m < i \<longrightarrow>
               ev_left (fst r ! m) = minLeft + int (m - start) * width
             \<and> ev_width (fst r ! m) = width)
          \<and> (\<not> (k + 1 \<le> m \<and> m < i) \<longrightarrow> fst r ! m = es2 ! m))"
      unfolding r_def
      using "1.prems" True l2 len2
      by (intro "1.IH"[OF True left1_def es1_def es2_def]) auto
    show ?thesis unfolding eq
    proof (intro conjI allI impI)
      show "snd r = minLeft + int (i - start) * width" using IH by simp
    next
      fix m assume m: "m < length es" "k \<le> m \<and> m < i"
      show "ev_left (fst r ! m) = minLeft + int (m - start) * width"
        using IH m len2 k2 l1 by (cases "m = k") auto
      show "ev_width (fst r ! m) = width"
        using IH m len2 k2 by (cases "m = k") auto
    next
      fix m assume m: "m < length es" "\<not> (k \<le> m \<and> m < i)"
      with True have "m \<noteq> k" by auto
      with IH m len2 o2[of m] show "fst r ! m = es ! m" by auto
    qed
  qed
qed

lemma mult_div_le_int: "0 < d \<Longrightarrow> d * (a div d) \<le> (a::int)"
proof -
  assume d: "0 < d"
  then have "0 \<le> a mod d" by simp
  moreover have "d * (a div d) + a mod d = a" by simp
  ultimately show ?thesis by linarith
qed

lemma setLayOutParams_loop_collisions:
  "k < length es \<Longrightarrow>
   collisions (setLayOutParams_loop es minLeft maxWidth start i ! k) = collisions (es ! k)"
  using map_unplace_nth[OF map_unplace_setLayOutParams_loop, of k es minLeft maxWidth start i]
  by (metis length_map map_unplace_setLayOutParams_loop unplace_fields(4))

lemma setLayOutParams_loop_inWindow:
  assumes "0 \<le> maxWidth" "maxWidth < 2 ^ 31"
    and "start \<le> i"
    and "getLeftCollisionsCount (collisions (es ! start)) start = 0"
    and "start < i \<longrightarrow> ev_left (es ! start) = minLeft"
    and "\<forall>m<i. m < length es \<longrightarrow> inWindow minLeft maxWidth (es ! m)"
  shows "\<forall>m<length es. inWindow minLeft maxWidth (setLayOutParams_loop es minLeft maxWidth start i ! m)"
  using assms
proof (induction es minLeft maxWidth start i rule: setLayOutParams_loop.induct)
  case (1 es minLeft maxWidth start i)
  show ?case
  proof (cases "i < length es")
    case False
    then have "setLayOutParams_loop es minLeft maxWidth start i = es"
      by (subst setLayOutParams_loop_unfold) simp
    with False "1.prems" show ?thesis by simp
  next
    case lt: True
    show ?thesis
    proof (cases "getLeftCollisionsCount (collisions (es ! i)) i = 0")
      case True
      define es' where "es' = es[i := (es ! i)\<lparr>ev_left := minLeft, ev_width := maxWidth\<rparr>]"
      have eq: "setLayOutParams_loop es minLeft maxWidth start i
          = setLayOutParams_loop es' minLeft maxWidth i (i + 1)"
        using lt True unfolding es'_def by (subst setLayOutParams_loop_unfold) simp
      have len: "length es' = length es" by (simp add: es'_def)
      have a: "getLeftCollisionsCount (collisions (es' ! i)) i = 0"
        using True lt by (simp add: es'_def)
      have b: "ev_left (es' ! i) = minLeft" using lt by (simp add: es'_def)
      have c: "\<forall>m<i + 1. m < length es' \<longrightarrow> inWindow minLeft maxWidth (es' ! m)"
      proof (intro allI impI)
        fix m assume m: "m < i + 1" "m < length es'"
        show "inWindow minLeft maxWidth (es' ! m)"
        proof (cases "m = i")
          case True
          with lt show ?thesis by (simp add: es'_def inWindow_def)
        next
          case False
          with m "1.prems"(6) len show ?thesis by (simp add: es'_def)
        qed
      qed
      have "\<forall>m<length es'. inWindow minLeft maxWidth
              (setLayOutParams_loop es' minLeft maxWidth i (i + 1) ! m)"
        using "1.IH"(1)[OF lt True "1.prems"(1,2) _ _ _ ] a b c unfolding es'_def by simp
      with len show ?thesis unfolding eq by simp
    next
      case False
      define width where "width = divShl0 maxWidth (int i - int start + 1)"
      define left where "left = ev_left (es ! (collisions (es ! i) ! 0))"
      define r where "r = setLayOutParams_inner es minLeft width start i left start"
      define es' where "es' = (fst r)[i := (fst r ! i)\<lparr>ev_left := snd r, ev_width := width\<rparr>]"
      have eq: "setLayOutParams_loop es minLeft maxWidth start i
          = setLayOutParams_loop es' minLeft maxWidth start (i + 1)"
        using lt False unfolding es'_def r_def width_def left_def
        by (subst setLayOutParams_loop_unfold) (simp add: Let_def)
      from False "1.prems"(3,4) have si: "start < i" by (cases "start = i") auto
      define d where "d = int i - int start + 1"
      from si have d: "1 \<le> d" "d = int (i - start) + 1" by (simp_all add: d_def)
      have w: "width = maxWidth div d"
        unfolding width_def d_def[symmetric] using divShl0_nonneg[OF "1.prems"(1,2) d(1)] .
      from d "1.prems"(1) have w0: "0 \<le> width" unfolding w by (simp add: pos_imp_zdiv_nonneg_iff)
      from d have dw: "d * width \<le> maxWidth" unfolding w by (intro mult_div_le_int) simp
      from getLeftCollisionsCount_pos[OF False] have c0: "collisions (es ! i) ! 0 < i" by simp
      with lt "1.prems"(6) have l0: "minLeft \<le> left"
        unfolding left_def by (simp add: inWindow_def)
      have spec: "snd r = minLeft + int (i - start) * width
       \<and> (\<forall>m<length es.
            (start \<le> m \<and> m < i \<longrightarrow>
               ev_left (fst r ! m) = minLeft + int (m - start) * width
             \<and> ev_width (fst r ! m) = width)
          \<and> (\<not> (start \<le> m \<and> m < i) \<longrightarrow> fst r ! m = es ! m))"
        unfolding r_def
        using si lt w0 l0 "1.prems"(5)
        by (intro setLayOutParams_inner_spec) auto
      have lenr: "length (fst r) = length es" by (simp add: r_def)
      have len: "length es' = length es" by (simp add: es'_def lenr)
      have ui: "unplace (es' ! m) = unplace (es ! m)" if "m < length es" for m
      proof -
        have "map unplace es' = map unplace (fst r)" unfolding es'_def
          by (rule map_unplace_update) simp
        then have "map unplace es' = map unplace es" by (simp add: r_def)
        from map_unplace_nth[OF this] that len show ?thesis by simp
      qed
      have a: "getLeftCollisionsCount (collisions (es' ! start)) start = 0"
        using ui[of start] si lt "1.prems"(4) by (metis less_trans unplace_fields(4))
      have win: "inWindow minLeft maxWidth (es' ! m)" if m: "m < i + 1" "m < length es" for m
      proof -
        consider "m < start" | "start \<le> m" "m < i" | "m = i" using m by linarith
        then show ?thesis
        proof cases
          case 1
          with spec m si have "es' ! m = es ! m" by (simp add: es'_def)
          with 1 si m "1.prems"(6) show ?thesis by simp
        next
          case 2
          with spec m have e: "ev_left (es' ! m) = minLeft + int (m - start) * width"
            "ev_width (es' ! m) = width" by (simp_all add: es'_def)
          have "int (m - start) + 1 \<le> d" using 2 d by simp
          then have "(int (m - start) + 1) * width \<le> d * width" using w0 by (rule mult_right_mono)
          with dw have "int (m - start) * width + width \<le> maxWidth" by (simp add: algebra_simps)
          moreover have "0 \<le> int (m - start) * width" using w0 by simp
          ultimately show ?thesis unfolding inWindow_def e by simp
        next
          case 3
          with spec lt lenr have e: "ev_left (es' ! m) = minLeft + int (i - start) * width"
            "ev_width (es' ! m) = width" by (simp_all add: es'_def)
          have "int (i - start) * width + width = d * width" using d by (simp add: algebra_simps)
          with dw have "int (i - start) * width + width \<le> maxWidth" by simp
          moreover have "0 \<le> int (i - start) * width" using w0 by simp
          ultimately show ?thesis unfolding inWindow_def e by simp
        qed
      qed
      have b: "ev_left (es' ! start) = minLeft"
        using spec si lt by (simp add: es'_def)
      have "\<forall>m<length es'. inWindow minLeft maxWidth
              (setLayOutParams_loop es' minLeft maxWidth start (i + 1) ! m)"
        using "1.IH"(2)[OF lt False left_def width_def, of "fst r" "snd r"] "1.prems"(1,2) a b win si len
        unfolding es'_def r_def by simp
      with len show ?thesis unfolding eq by simp
    qed
  qed
qed

lemma setLayOutParams_inWindow:
  assumes "0 \<le> maxWidth" "maxWidth < 2 ^ 31" "e \<in> set (setLayOutParams es minLeft maxWidth)"
  shows "inWindow minLeft maxWidth e"
proof -
  have "\<forall>m<length es. inWindow minLeft maxWidth (setLayOutParams_loop es minLeft maxWidth 0 0 ! m)"
    using assms(1,2) by (intro setLayOutParams_loop_inWindow) simp_all
  with assms(3) show ?thesis
    by (metis in_set_conv_nth length_setLayOutParams setLayOutParams_def)
qed

section \<open>The nested layout resolver\<close>

lemma propKey_Some [simp]: "propKey (Some t) = t"
  by (simp add: propKey_def)

lemma inherited_proto: "\<not> inherited t \<Longrightarrow> t \<noteq> Name ''__proto__''"
  by (auto simp: prototypeKeys_def)

lemma eventIdxById_loop_Some:
  "eventIdxById_loop es i m t = Some k \<Longrightarrow>
   m t = Some k \<or> (i \<le> k \<and> k < i + length es \<and> ev_id (es ! (k - i)) = t)"
proof (induction es i m rule: eventIdxById_loop.induct)
  case (1 i m)
  then show ?case by simp
next
  case (2 e rest i m)
  define m' where "m' = (if ev_id e = Name ''__proto__'' then m else m(ev_id e \<mapsto> i))"
  from "2.prems" have "eventIdxById_loop rest (i + 1) m' t = Some k" by (simp add: m'_def)
  from "2.IH"[folded m'_def, OF this] show ?case
  proof
    assume "m' t = Some k"
    then have "m t = Some k \<or> (t = ev_id e \<and> k = i)"
      by (auto simp: m'_def split: if_splits)
    then show ?thesis by auto
  next
    assume a: "i + 1 \<le> k \<and> k < i + 1 + length rest \<and> ev_id (rest ! (k - (i + 1))) = t"
    then have "(e # rest) ! (k - i) = rest ! (k - (i + 1))"
      by (metis Suc_diff_le Suc_eq_plus1 Suc_leD diff_Suc_Suc nth_Cons_Suc)
    with a show ?thesis by auto
  qed
qed

lemma eventIdxById_loop_dom:
  "dom (eventIdxById_loop es i m) = dom m \<union> (ev_id ` set es - {Name ''__proto__''})"
proof (induction es i m rule: eventIdxById_loop.induct)
  case (1 i m)
  then show ?case by simp
next
  case (2 e rest i m)
  define m' where "m' = (if ev_id e = Name ''__proto__'' then m else m(ev_id e \<mapsto> i))"
  have "dom (eventIdxById_loop (e # rest) i m) = dom (eventIdxById_loop rest (i + 1) m')"
    by (simp add: m'_def)
  also have "\<dots> = dom m' \<union> (ev_id ` set rest - {Name ''__proto__''})"
    unfolding m'_def by (rule "2.IH")
  also have "\<dots> = dom m \<union> (ev_id ` set (e # rest) - {Name ''__proto__''})"
    by (auto simp: m'_def)
  finally show ?case .
qed

lemma eventIdxById_in_range:
  "eventIdxById_loop es 0 Map.empty t = Some k \<Longrightarrow> k < length es \<and> ev_id (es ! k) = t"
  using eventIdxById_loop_Some[of es 0 Map.empty t k] by simp

lemma eventIdxById_defined:
  assumes "e \<in> set es" and "ev_id e \<noteq> Name ''__proto__''"
  shows "\<exists>k. eventIdxById_loop es 0 Map.empty (ev_id e) = Some k"
proof -
  from assms have "ev_id e \<in> dom (eventIdxById_loop es 0 Map.empty)"
    unfolding eventIdxById_loop_dom by simp
  then show ?thesis by blast
qed

lemma map_fst_updateGroup [simp]: "map fst (updateGroup key f gs) = map fst gs"
  by (induction key f gs rule: updateGroup.induct) auto

lemma map_of_updateGroup:
  "map_of (updateGroup key f gs) t = (if t = key then map_option f (map_of gs t) else map_of gs t)"
  by (induction key f gs rule: updateGroup.induct) auto

lemma updateGroup_append_new:
  "key \<notin> fst ` set gs \<Longrightarrow> updateGroup key f (gs @ [(key, g)]) = gs @ [(key, f g)]"
  by (induction key f gs rule: updateGroup.induct) auto

lemma fitBetween_Inr:
  "keysOk eventsUnder groups i \<Longrightarrow>
   \<exists>r. fitBetween eventsUnder groups ev eventGroup topLeft i left width j = Inr r"
proof (induction eventsUnder groups ev eventGroup topLeft i left width j rule: fitBetween.induct)
  case (1 eventsUnder groups ev eventGroup topLeft i left width j)
  show ?case
  proof (cases "j < i")
    case False
    then show ?thesis by (subst fitBetween.simps) simp
  next
    case lt: True
    show ?thesis
    proof (cases "isEventsCollides (eventsUnder ! j) ev")
      case False
      with lt "1.IH"(4)[OF lt False "1.prems"] show ?thesis
        by (subst fitBetween.simps) simp
    next
      case True
      from "1.prems" lt obtain t g where t: "topEventId (eventsUnder ! j) = Some t"
        "map_of groups t = Some g" unfolding keysOk_def by blast
      then have c: "map_of groups (propKey (topEventId (eventsUnder ! j))) = Some g" by simp
      show ?thesis
      proof (cases "g_left g < g_left eventGroup")
        case l: True
        with lt True c "1.IH"(2)[OF lt True c l refl "1.prems"] show ?thesis
          by (subst fitBetween.simps) (simp add: Let_def)
      next
        case l: False
        with lt True c "1.IH"(3)[OF lt True c l "1.prems"] show ?thesis
          by (subst fitBetween.simps) (simp add: Let_def)
      qed
    qed
  qed
qed

lemma updateGroup_id: "updateGroup key (\<lambda>g. g) gs = gs"
  by (induction key "\<lambda>g::eventGroup. g" gs rule: updateGroup.induct) auto

lemma map_of_updateGroup_None [simp]:
  "map_of (updateGroup key f gs) t = None \<longleftrightarrow> map_of gs t = None"
  by (simp add: map_of_updateGroup)

lemma map_of_joinGroup_mono:
  "map_of groups t' = Some g \<Longrightarrow> \<exists>g'. map_of (joinGroup es groups t k i) t' = Some g'"
  unfolding joinGroup_def by (cases "map_of groups t = None") (auto simp: map_of_updateGroup)

lemma map_of_joinGroup_key: "\<exists>g'. map_of (joinGroup es groups t k i) t = Some g'"
  unfolding joinGroup_def by (cases "map_of groups t") (auto simp: map_of_updateGroup map_add_def)

lemma keysOk_joinGroup:
  "keysOk eventsUnder groups i \<Longrightarrow> keysOk eventsUnder (joinGroup es groups t k n) i"
  unfolding keysOk_def by (meson map_of_joinGroup_mono)

lemma processEventsUnder_step_result:
  assumes t: "topEventId (eventsUnder ! i) = Some t" and k: "eventIdxById t = Some k"
    and ok: "keysOk eventsUnder groups i"
    and ni: "map_of groups t \<noteq> None \<or> \<not> inherited t"
  shows "\<exists>f. processEventsUnder_step eventsUnder es eventIdxById groups i
              = Inr (updateGroup t f (joinGroup es groups t k i))
            \<and> (\<forall>g. items (f g) = items g)"
proof -
  from ni have c: "\<not> (map_of groups t = None \<and> inherited t)" by blast
  define groups2 where "groups2 = joinGroup es groups t k i"
  define ev where "ev = eventsUnder ! i"
  define eventAtTop where "eventAtTop = es ! k"
  define htr where "htr = (if k + 1 < length es \<and> i + 1 < length eventsUnder
                 then Some (ev_id (es ! (k + 1))) = topEventId (eventsUnder ! (i + 1))
                      \<and> isEventsCollides (eventsUnder ! (i + 1)) ev
                 else False)"
  define fit where "fit = (if getLeftCollisionsCount (collisions ev) i \<noteq> 0
                         then fitBetween eventsUnder groups2 ev (the (map_of groups2 t)) (ev_left eventAtTop) i
                                (ev_left eventAtTop) (ev_width eventAtTop) 0
                         else Inr (fitAtLeft es ev (ev_left eventAtTop)
                                (ev_left eventAtTop) (ev_width eventAtTop) k))"
  have step: "processEventsUnder_step eventsUnder es eventIdxById groups i
     = (if collisions eventAtTop \<noteq> [] \<and> \<not> htr
        then (case fit of Inl err \<Rightarrow> Inl err
              | Inr (left, width) \<Rightarrow>
                  Inr (updateGroup t (\<lambda>g. g\<lparr>g_left := left,
                         g_width := fitAtRight es ev left width (k + 1)\<rparr>) groups2))
        else Inr groups2)"
    unfolding processEventsUnder_step_def groups2_def joinGroup_def ev_def eventAtTop_def
      htr_def fit_def Let_def
    by (simp only: t k c propKey_Some if_False option.case)
  from keysOk_joinGroup[OF ok] have ok2: "keysOk eventsUnder groups2 i" by (simp add: groups2_def)
  obtain left width where fit: "fit = Inr (left, width)"
  proof (cases "getLeftCollisionsCount (collisions ev) i \<noteq> 0")
    case True
    from fitBetween_Inr[OF ok2] obtain r where
      "fitBetween eventsUnder groups2 ev (the (map_of groups2 t)) (ev_left eventAtTop) i
                                (ev_left eventAtTop) (ev_width eventAtTop) 0 = Inr r" by blast
    with True have "fit = Inr (fst r, snd r)" by (simp add: fit_def)
    with that show thesis .
  next
    case False
    then have "fit = Inr (fst (fitAtLeft es ev (ev_left eventAtTop)
                                (ev_left eventAtTop) (ev_width eventAtTop) k),
                      snd (fitAtLeft es ev (ev_left eventAtTop)
                                (ev_left eventAtTop) (ev_width eventAtTop) k))"
      by (simp add: fit_def)
    with that show thesis .
  qed
  show ?thesis
  proof (cases "collisions eventAtTop \<noteq> [] \<and> \<not> htr")
    case True
    with step fit have "processEventsUnder_step eventsUnder es eventIdxById groups i
       = Inr (updateGroup t (\<lambda>g. g\<lparr>g_left := left,
                         g_width := fitAtRight es ev left width (k + 1)\<rparr>) groups2)" by simp
    then show ?thesis unfolding groups2_def
      by (intro exI[of _ "\<lambda>g. g\<lparr>g_left := left, g_width := fitAtRight es ev left width (k + 1)\<rparr>"]) simp
  next
    case False
    with step have "processEventsUnder_step eventsUnder es eventIdxById groups i
       = Inr (updateGroup t (\<lambda>g. g) groups2)" by (simp add: updateGroup_id)
    then show ?thesis unfolding groups2_def by (intro exI[of _ "\<lambda>g. g"]) simp
  qed
qed

lemma processEventsUnder_step_Inr:
  assumes res: "processEventsUnder_step eventsUnder es eventIdxById groups i = Inr groups'"
  shows "\<exists>k f. groups' = updateGroup (propKey (topEventId (eventsUnder ! i))) f
                    (joinGroup es groups (propKey (topEventId (eventsUnder ! i))) k i)
           \<and> (\<forall>g. items (f g) = items g)
           \<and> eventIdxById (propKey (topEventId (eventsUnder ! i))) = Some k
           \<and> (map_of groups (propKey (topEventId (eventsUnder ! i))) \<noteq> None
                \<or> \<not> inherited (propKey (topEventId (eventsUnder ! i))))"
proof -
  define t where "t = propKey (topEventId (eventsUnder ! i))"
  have c: "\<not> (map_of groups t = None \<and> inherited t)"
  proof
    assume "map_of groups t = None \<and> inherited t"
    then have "processEventsUnder_step eventsUnder es eventIdxById groups i = Inl TypeError"
      by (simp add: processEventsUnder_step_def Let_def t_def)
    with res show False by simp
  qed
  obtain k where k: "eventIdxById t = Some k"
  proof (cases "eventIdxById t")
    case None
    then have "processEventsUnder_step eventsUnder es eventIdxById groups i = Inl TypeError"
      by (simp add: processEventsUnder_step_def Let_def t_def)
    with res show thesis by simp
  next
    case (Some k)
    with that show thesis .
  qed
  define groups2 where "groups2 = joinGroup es groups t k i"
  define ev where "ev = eventsUnder ! i"
  define eventAtTop where "eventAtTop = es ! k"
  define htr where "htr = (if k + 1 < length es \<and> i + 1 < length eventsUnder
                 then Some (ev_id (es ! (k + 1))) = topEventId (eventsUnder ! (i + 1))
                      \<and> isEventsCollides (eventsUnder ! (i + 1)) ev
                 else False)"
  define fit where "fit = (if getLeftCollisionsCount (collisions ev) i \<noteq> 0
                         then fitBetween eventsUnder groups2 ev (the (map_of groups2 t)) (ev_left eventAtTop) i
                                (ev_left eventAtTop) (ev_width eventAtTop) 0
                         else Inr (fitAtLeft es ev (ev_left eventAtTop)
                                (ev_left eventAtTop) (ev_width eventAtTop) k))"
  have step: "processEventsUnder_step eventsUnder es eventIdxById groups i
     = (if collisions eventAtTop \<noteq> [] \<and> \<not> htr
        then (case fit of Inl err \<Rightarrow> Inl err
              | Inr (left, width) \<Rightarrow>
                  Inr (updateGroup t (\<lambda>g. g\<lparr>g_left := left,
                         g_width := fitAtRight es ev left width (k + 1)\<rparr>) groups2))
        else Inr groups2)"
    unfolding processEventsUnder_step_def groups2_def joinGroup_def ev_def eventAtTop_def
      htr_def fit_def Let_def
    by (simp only: t_def[symmetric] k c if_False option.case)
  have "\<exists>f. groups' = updateGroup t f (joinGroup es groups t k i)
           \<and> (\<forall>g. items (f g) = items g)" (is ?main)
  proof (cases "collisions eventAtTop \<noteq> [] \<and> \<not> htr")
    case False
    with step res have "groups' = updateGroup t (\<lambda>g. g) groups2" by (simp add: updateGroup_id)
    then show ?main unfolding groups2_def by blast
  next
    case True
    show ?main
    proof (cases fit)
      case (Inl err)
      with True step res show ?main by simp
    next
      case (Inr p)
      obtain left width where p: "p = (left, width)" by (cases p)
      with Inr True step res have "groups' = updateGroup t (\<lambda>g. g\<lparr>g_left := left,
                         g_width := fitAtRight es ev left width (k + 1)\<rparr>) groups2" by simp
      moreover have "\<forall>g. items (g\<lparr>g_left := left,
                         g_width := fitAtRight es ev left width (k + 1)\<rparr>) = items g" by simp
      ultimately show ?main unfolding groups2_def by blast
    qed
  qed
with k c show ?thesis unfolding t_def by blast
qed

lemma keysOk_step:
  assumes t: "topEventId (eventsUnder ! i) = Some t"
    and ok: "keysOk eventsUnder groups i"
    and f: "\<forall>g. items (f g) = items g"
  shows "keysOk eventsUnder (updateGroup t f (joinGroup es groups t k i)) (i + 1)"
  unfolding keysOk_def
proof (intro allI impI)
  fix j assume "j < i + 1"
  then consider "j < i" | "j = i" by linarith
  then show "\<exists>t' g. topEventId (eventsUnder ! j) = Some t'
        \<and> map_of (updateGroup t f (joinGroup es groups t k i)) t' = Some g"
  proof cases
    case 1
    with ok obtain t' g where "topEventId (eventsUnder ! j) = Some t'" "map_of groups t' = Some g"
      unfolding keysOk_def by blast
    with map_of_joinGroup_mono[of groups t' g es t k i] show ?thesis
      by (auto simp: map_of_updateGroup)
  next
    case 2
    with t map_of_joinGroup_key[of es groups t k i] show ?thesis
      by (auto simp: map_of_updateGroup)
  qed
qed

lemma processEventsUnder_loop_Inr:
  assumes "anchorsKnown eventsUnder eventIdxById" "keysOk eventsUnder groups i"
  shows "\<exists>groups'. processEventsUnder_loop eventsUnder es eventIdxById groups i = Inr groups'"
  using assms
proof (induction eventsUnder es eventIdxById groups i rule: processEventsUnder_loop.induct)
  case (1 eventsUnder es eventIdxById groups i)
  show ?case
  proof (cases "i < length eventsUnder")
    case False
    then show ?thesis by (subst processEventsUnder_loop.simps) simp
  next
    case True
    with "1.prems"(1) obtain t k where t: "topEventId (eventsUnder ! i) = Some t"
      and k: "eventIdxById t = Some k" and ni: "\<not> inherited t"
      unfolding anchorsKnown_def by blast
    from ni have ni': "map_of groups t \<noteq> None \<or> \<not> inherited t" by blast
    from processEventsUnder_step_result[where eventIdxById = eventIdxById and es = es,
           OF t k "1.prems"(2) ni'] obtain f where
      st: "processEventsUnder_step eventsUnder es eventIdxById groups i
              = Inr (updateGroup t f (joinGroup es groups t k i))"
      and f: "\<forall>g. items (f g) = items g" by blast
    from keysOk_step[OF t "1.prems"(2) f]
    have "keysOk eventsUnder (updateGroup t f (joinGroup es groups t k i)) (i + 1)" .
    from "1.IH"[OF True st "1.prems"(1) this] True st show ?thesis
      by (subst processEventsUnder_loop.simps) simp
  qed
qed

lemma fst_set_updateGroup: "fst ` set (updateGroup key f gs) = fst ` set gs"
  using map_fst_updateGroup[of key f gs] by (metis set_map)

lemma fst_set_joinGroup: "fst ` set (joinGroup es groups t k i) \<subseteq> insert t (fst ` set groups)"
proof -
  have "fst ` set (joinGroup es groups t k i)
      = fst ` set (if map_of groups t = None
          then groups @ [(t, \<lparr>items = [], g_left = ev_left (es ! k), g_width = ev_width (es ! k)\<rparr>)]
          else groups)"
    unfolding joinGroup_def by (rule fst_set_updateGroup)
  also have "\<dots> \<subseteq> insert t (fst ` set groups)" by auto
  finally show ?thesis .
qed

text \<open>The loop raises at the first nested event whose anchor's id is a property of
  \<open>Object.prototype\<close>: the hash \<open>eventsGroups\<close> owns no such key.\<close>

lemma processEventsUnder_loop_raises:
  assumes "i \<le> n" and "n < length eventsUnder"
    and "inherited (propKey (topEventId (eventsUnder ! n)))"
    and "\<forall>j. i \<le> j \<and> j < n \<longrightarrow>
           (\<exists>t k. topEventId (eventsUnder ! j) = Some t \<and> eventIdxById t = Some k
                  \<and> \<not> inherited t)"
    and "keysOk eventsUnder groups i"
    and "\<forall>key \<in> fst ` set groups. \<not> inherited key"
  shows "processEventsUnder_loop eventsUnder es eventIdxById groups i = Inl TypeError"
  using assms
proof (induction eventsUnder es eventIdxById groups i rule: processEventsUnder_loop.induct)
  case (1 eventsUnder es eventIdxById groups i)
  from "1.prems"(1,2) have lt: "i < length eventsUnder" by simp
  show ?case
  proof (cases "i = n")
    case True
    define t where "t = propKey (topEventId (eventsUnder ! i))"
    from "1.prems"(3) True have inh: "inherited t" by (simp add: t_def)
    with "1.prems"(6) have "t \<notin> fst ` set groups" by blast
    then have "map_of groups t = None" by (simp add: map_of_eq_None_iff)
    with inh have "processEventsUnder_step eventsUnder es eventIdxById groups i = Inl TypeError"
      by (simp add: processEventsUnder_step_def Let_def t_def)
    with lt show ?thesis by (subst processEventsUnder_loop.simps) simp
  next
    case False
    with "1.prems"(1) have less: "i < n" by simp
    with "1.prems"(4) obtain t k where t: "topEventId (eventsUnder ! i) = Some t"
      and k: "eventIdxById t = Some k" and ni: "\<not> inherited t" by blast
    from ni have ni': "map_of groups t \<noteq> None \<or> \<not> inherited t" by blast
    from processEventsUnder_step_result[where eventIdxById = eventIdxById and es = es,
           OF t k "1.prems"(5) ni'] obtain f where
      st: "processEventsUnder_step eventsUnder es eventIdxById groups i
              = Inr (updateGroup t f (joinGroup es groups t k i))"
      and f: "\<forall>g. items (f g) = items g" by blast
    have ok: "keysOk eventsUnder (updateGroup t f (joinGroup es groups t k i)) (i + 1)"
      by (rule keysOk_step[OF t "1.prems"(5) f])
    have keys: "\<forall>key \<in> fst ` set (updateGroup t f (joinGroup es groups t k i)). \<not> inherited key"
    proof
      fix key assume "key \<in> fst ` set (updateGroup t f (joinGroup es groups t k i))"
      then have "key \<in> fst ` set (joinGroup es groups t k i)"
        by (simp only: fst_set_updateGroup)
      with fst_set_joinGroup[of es groups t k i] have "key = t \<or> key \<in> fst ` set groups"
        by blast
      with "1.prems"(6) ni show "\<not> inherited key" by blast
    qed
    have rest: "\<forall>j. i + 1 \<le> j \<and> j < n \<longrightarrow>
           (\<exists>t k. topEventId (eventsUnder ! j) = Some t \<and> eventIdxById t = Some k
                  \<and> \<not> inherited t)" using "1.prems"(4) by simp
    from less have le: "i + 1 \<le> n" by simp
    from "1.IH"[OF lt st le "1.prems"(2,3) rest ok keys] lt st show ?thesis
      by (subst processEventsUnder_loop.simps) simp
  qed
qed

lemma groupItems_step:
  assumes shape: "groupItems groups = oneEach eventsUnder i"
    and t: "topEventId (eventsUnder ! i) = Some t"
    and new: "\<forall>j<i. topEventId (eventsUnder ! j) \<noteq> Some t"
    and known: "\<forall>j<i. topEventId (eventsUnder ! j) \<noteq> None"
    and f: "\<forall>g. items (f g) = items g"
  shows "groupItems (updateGroup t f (joinGroup es groups t k i)) = oneEach eventsUnder (i + 1)"
proof -
  have "map fst groups = map fst (groupItems groups)"
    by (simp add: groupItems_def comp_def case_prod_unfold)
  also have "\<dots> = map (\<lambda>j. the (topEventId (eventsUnder ! j))) [0..<i]"
    by (simp add: shape oneEach_def comp_def)
  finally have keys: "map fst groups = map (\<lambda>j. the (topEventId (eventsUnder ! j))) [0..<i]" .
  have notin: "t \<notin> fst ` set groups"
  proof
    assume "t \<in> fst ` set groups"
    then have "t \<in> set (map fst groups)" by simp
    with keys obtain j where j: "j < i" "t = the (topEventId (eventsUnder ! j))" by auto
    with known new show False by (metis option.collapse)
  qed
  then have none: "map_of groups t = None" by (simp add: map_of_eq_None_iff)
  define g0 where "g0 = \<lparr>items = [], g_left = ev_left (es ! k), g_width = ev_width (es ! k)\<rparr>"
  have "joinGroup es groups t k i = groups @ [(t, g0\<lparr>items := items g0 @ [i]\<rparr>)]"
    unfolding joinGroup_def g0_def[symmetric] using none notin
    by (simp add: updateGroup_append_new)
  then have "updateGroup t f (joinGroup es groups t k i)
      = groups @ [(t, f (g0\<lparr>items := items g0 @ [i]\<rparr>))]"
    using notin by (simp add: updateGroup_append_new)
  then have "groupItems (updateGroup t f (joinGroup es groups t k i))
      = groupItems groups @ [(t, [i])]"
    using f by (simp add: groupItems_def g0_def)
  with shape t show ?thesis by (simp add: oneEach_def)
qed

text \<open>Whenever the loop returns, and the nested events name pairwise distinct anchors,
  it has built one group for each nested event.\<close>

lemma processEventsUnder_loop_oneEach_Inr:
  assumes "processEventsUnder_loop eventsUnder es eventIdxById groups i = Inr groups'"
    and "\<forall>j<length eventsUnder. topEventId (eventsUnder ! j) \<noteq> None"
    and "distinct (map topEventId eventsUnder)"
    and "groupItems groups = oneEach eventsUnder i" and "i \<le> length eventsUnder"
  shows "groupItems groups' = oneEach eventsUnder (length eventsUnder)"
  using assms
proof (induction eventsUnder es eventIdxById groups i rule: processEventsUnder_loop.induct)
  case (1 eventsUnder es eventIdxById groups i)
  show ?case
  proof (cases "i < length eventsUnder")
    case False
    with "1.prems" have "i = length eventsUnder" by simp
    moreover from False "1.prems"(1) have "groups' = groups"
      by (subst (asm) processEventsUnder_loop.simps) simp
    ultimately show ?thesis using "1.prems"(4) by simp
  next
    case True
    from "1.prems"(1) True obtain g1 where
      st: "processEventsUnder_step eventsUnder es eventIdxById groups i = Inr g1"
      and rest: "processEventsUnder_loop eventsUnder es eventIdxById g1 (i + 1) = Inr groups'"
      by (subst (asm) processEventsUnder_loop.simps) (auto split: sum.splits)
    from "1.prems"(2) True obtain t where t: "topEventId (eventsUnder ! i) = Some t" by auto
    from processEventsUnder_step_Inr[OF st] t obtain k f where
      g1: "g1 = updateGroup t f (joinGroup es groups t k i)"
      and f: "\<forall>g. items (f g) = items g" by auto
    have new: "\<forall>j<i. topEventId (eventsUnder ! j) \<noteq> Some t"
    proof (intro allI impI)
      fix j assume j: "j < i"
      from j True have lj: "j < length (map topEventId eventsUnder)"
        and li: "i < length (map topEventId eventsUnder)" and ne: "j \<noteq> i" by simp_all
      from nth_eq_iff_index_eq[OF "1.prems"(3) lj li] ne
      have "map topEventId eventsUnder ! j \<noteq> map topEventId eventsUnder ! i" by simp
      with j True t show "topEventId (eventsUnder ! j) \<noteq> Some t" by simp
    qed
    have known: "\<forall>j<i. topEventId (eventsUnder ! j) \<noteq> None"
      using "1.prems"(2) True by simp
    have sh: "groupItems g1 = oneEach eventsUnder (i + 1)"
      unfolding g1 by (rule groupItems_step[OF "1.prems"(4) t new known f])
    from "1.IH"[OF True st rest "1.prems"(2,3) sh] True show ?thesis by simp
  qed
qed

lemma map_unplace_writeBack:
  assumes "\<forall>n. n < length ks \<and> n < length es \<and> ks ! n < length eventsUnder
             \<longrightarrow> unplace (es ! n) = unplace (eventsUnder ! (ks ! n))"
  shows "map unplace (writeBack eventsUnder ks es) = map unplace eventsUnder"
  using assms
proof (induction eventsUnder ks es rule: writeBack.induct)
  case (1 eventsUnder k ks e es)
  have up: "map unplace (eventsUnder[k := e]) = map unplace eventsUnder"
  proof (cases "k < length eventsUnder")
    case True
    with "1.prems" have "unplace e = unplace (eventsUnder ! k)" by force
    then show ?thesis by (rule map_unplace_update)
  next
    case False
    then show ?thesis by (simp add: list_update_beyond)
  qed
  have "\<forall>n. n < length ks \<and> n < length es \<and> ks ! n < length (eventsUnder[k := e])
             \<longrightarrow> unplace (es ! n) = unplace (eventsUnder[k := e] ! (ks ! n))"
  proof (intro allI impI)
    fix n assume n: "n < length ks \<and> n < length es \<and> ks ! n < length (eventsUnder[k := e])"
    then have "unplace (es ! n) = unplace (eventsUnder ! (ks ! n))"
      using "1.prems" by (auto dest: spec[of _ "Suc n"])
    also have "\<dots> = unplace (eventsUnder[k := e] ! (ks ! n))"
      using map_unplace_nth[OF up, of "ks ! n"] n by simp
    finally show "unplace (es ! n) = unplace (eventsUnder[k := e] ! (ks ! n))" .
  qed
  from "1.IH"[OF this] up show ?case by simp
qed simp_all

lemma map_unplace_layOutGroups [simp]:
  "map unplace (layOutGroups groups eventsUnder) = map unplace eventsUnder"
proof (induction groups eventsUnder rule: layOutGroups.induct)
  case (1 eventsUnder)
  then show ?case by simp
next
  case (2 key g rest eventsUnder)
  define laid where "laid = setLayOutParams (map (\<lambda>k. eventsUnder ! k) (items g)) (g_left g) (g_width g)"
  have m: "map unplace laid = map unplace (map (\<lambda>k. eventsUnder ! k) (items g))"
    by (simp add: laid_def)
  have len: "length laid = length (items g)" by (simp add: laid_def)
  have "\<forall>n. n < length (items g) \<and> n < length laid \<and> items g ! n < length eventsUnder
             \<longrightarrow> unplace (laid ! n) = unplace (eventsUnder ! (items g ! n))"
    using map_unplace_nth[OF m] len by simp
  from map_unplace_writeBack[OF this]
  have "map unplace (writeBack eventsUnder (items g) laid) = map unplace eventsUnder" .
  with "2.IH" show ?case by (simp add: laid_def)
qed

section \<open>Cloning, normalizing and sorting\<close>

lemma cloneEvents_loop_eq:
  "cloneEvents_loop es acc = acc @ map cloneOf (truthyPrefix es)"
  by (induction es acc rule: cloneEvents_loop.induct) (simp_all add: cloneOf_def)

lemma truthyPrefix_Some [simp]: "truthyPrefix (map Some es) = es"
  by (induction es) simp_all

lemma truthyPrefix_falsy [simp]: "truthyPrefix (map Some es @ None # rest) = es"
  by (induction es) simp_all

lemma normalizeEvents_loop_eq:
  "normalizeEvents_loop es acc = acc @ map normalOf es"
  by (induction es acc rule: normalizeEvents_loop.induct) (simp_all add: normalOf_def)

lemma normalizeEvents_eq: "normalizeEvents es = map normalOf es"
  by (simp add: normalizeEvents_def normalizeEvents_loop_eq)

lemma normalOf_fields [simp]:
  "ev_id (normalOf e) = ev_id e" "ev_start (normalOf e) = ev_start e"
  "ev_end (normalOf e) = ev_end e" "ev_left (normalOf e) = ev_left e"
  "ev_width (normalOf e) = ev_width e" "ev_top (normalOf e) = ev_start e"
  by (simp_all add: normalOf_def)

lemma cloneOf_fields [simp]:
  "ev_id (cloneOf e) = ev_id e" "ev_start (cloneOf e) = ev_start e"
  "ev_end (cloneOf e) = ev_end e" "hasEventUnder (cloneOf e) = False"
  by (simp_all add: cloneOf_def)

subsection \<open>The sort\<close>

lemma compareStartEndTime_pos:
  "compareStartEndTime a b > 0 \<longleftrightarrow> sortKey b \<le> sortKey a"
  by (auto simp: compareStartEndTime_def sortKey_def)

lemma mset_insertFromRight [simp]:
  "mset (insertFromRight x pre) = add_mset x (mset pre)"
  by (induction x pre rule: insertFromRight.induct) auto

lemma mset_foldl_insertFromRight:
  "mset (foldl (\<lambda>prefix element. insertFromRight element prefix) acc es) = mset acc + mset es"
  by (induction es arbitrary: acc) auto

lemma mset_sortEvents [simp]: "mset (sortEvents es) = mset es"
  by (simp add: sortEvents_def mset_foldl_insertFromRight)

lemma set_insertFromRight [simp]: "set (insertFromRight x pre) = insert x (set pre)"
  by (metis mset_insertFromRight set_mset_add_mset_insert set_mset_mset)

lemma sorted_insertFromRight:
  "sorted (map sortKey (rev pre)) \<Longrightarrow> sorted (map sortKey (rev (insertFromRight x pre)))"
proof (induction x pre rule: insertFromRight.induct)
  case (1 element)
  then show ?case by simp
next
  case (2 element tmp rest)
  from "2.prems" have sr: "sorted (map sortKey (rev rest))"
    and le: "\<forall>y \<in> set rest. sortKey y \<le> sortKey tmp"
    by (auto simp: sorted_append)
  show ?case
  proof (cases "compareStartEndTime tmp element > 0")
    case True
    then have "sortKey element \<le> sortKey tmp" by (simp add: compareStartEndTime_pos)
    with True "2.IH"[OF True sr] le show ?thesis by (auto simp: sorted_append)
  next
    case False
    then have "sortKey tmp < sortKey element" by (simp add: compareStartEndTime_pos not_le)
    with False "2.prems" le show ?thesis by (fastforce simp: sorted_append)
  qed
qed

lemma sorted_foldl_insertFromRight:
  "sorted (map sortKey (rev acc)) \<Longrightarrow>
   sorted (map sortKey (rev (foldl (\<lambda>prefix element. insertFromRight element prefix) acc es)))"
  by (induction es arbitrary: acc) (simp_all add: sorted_insertFromRight)

lemma sorted_sortEvents: "sorted (map sortKey (sortEvents es))"
  unfolding sortEvents_def using sorted_foldl_insertFromRight[of "[]" es] by simp

lemma sortEvents_unique:
  assumes "mset a = mset b" "distinct (map sortKey a)"
  shows "sortEvents a = sortEvents b"
proof (rule map_sorted_distinct_set_unique[where f = sortKey])
  have sa: "set (sortEvents a) = set a" and sb: "set (sortEvents b) = set a"
    using assms(1) by (metis mset_sortEvents set_mset_mset)+
  from assms(2) have inj: "inj_on sortKey (set a)" by (simp add: distinct_map)
  then show "inj_on sortKey (set (sortEvents a) \<union> set (sortEvents b))" by (simp add: sa sb)
  show "sorted (map sortKey (sortEvents a))" "sorted (map sortKey (sortEvents b))"
    by (rule sorted_sortEvents)+
  have "mset (map sortKey (sortEvents a)) = mset (map sortKey a)" by simp
  with assms(2) show da: "distinct (map sortKey (sortEvents a))"
    by (metis mset_eq_imp_distinct_iff)
  have "mset (map sortKey (sortEvents b)) = mset (map sortKey a)" by (simp add: assms(1))
  with assms(2) show "distinct (map sortKey (sortEvents b))"
    by (metis mset_eq_imp_distinct_iff)
  show "set (sortEvents a) = set (sortEvents b)" by (simp add: sa sb)
qed

section \<open>The layout as a whole\<close>

lemma layOutDay_array_eq:
  "layOutDay (JsArray xs) =
     (case processEventsUnder (snd (primaryAndUnder xs)) (fst (primaryAndUnder xs)) of
        Inl err \<Rightarrow> Inl err
      | Inr eventsUnder' \<Rightarrow> Inr (normalizeEvents (fst (primaryAndUnder xs) @ eventsUnder')))"
proof -
  obtain es1 eventsUnder where
    "getEventsUnder (updateCollisions (sortEvents (cloneEvents_loop xs []))) = (es1, eventsUnder)"
    by (cases "getEventsUnder (updateCollisions (sortEvents (cloneEvents_loop xs [])))")
  then show ?thesis
    by (simp add: layOutDay_def cloneEvents_def primaryAndUnder_def Let_def cong: sum.case_cong)
qed

lemma primaryAndUnder_cases:
  obtains es1 eventsUnder where
    "getEventsUnder (updateCollisions (sortEvents (cloneEvents_loop xs []))) = (es1, eventsUnder)"
    "primaryAndUnder xs = (setLayOutParams es1 MIN_LEFT MAX_WIDTH, eventsUnder)"
proof -
  obtain es1 eventsUnder where
    g: "getEventsUnder (updateCollisions (sortEvents (cloneEvents_loop xs []))) = (es1, eventsUnder)"
    by (cases "getEventsUnder (updateCollisions (sortEvents (cloneEvents_loop xs [])))")
  then have "primaryAndUnder xs = (setLayOutParams es1 MIN_LEFT MAX_WIDTH, eventsUnder)"
    by (simp add: primaryAndUnder_def)
  with g that show thesis by blast
qed

lemma anchorsKnown_getEventsUnder:
  assumes g: "getEventsUnder es = (es1, eventsUnder)"
    and ids: "map ev_id es2 = map ev_id es1"
    and plain: "\<forall>u \<in> set eventsUnder. \<not> inherited (propKey (topEventId u))"
  shows "anchorsKnown eventsUnder (eventIdxById_loop es2 0 Map.empty)"
  unfolding anchorsKnown_def
proof (intro allI impI)
  fix i assume "i < length eventsUnder"
  then have mem: "eventsUnder ! i \<in> set eventsUnder" by simp
  from getEventsUnder_anchored[OF g mem] obtain k where
    k: "k < length es1" "topEventId (eventsUnder ! i) = Some (ev_id (es1 ! k))" by blast
  from plain mem k(2) have ni: "\<not> inherited (ev_id (es1 ! k))" by force
  from ids have len: "length es2 = length es1" by (metis length_map)
  from ids k(1) len have e: "ev_id (es2 ! k) = ev_id (es1 ! k)" by (metis nth_map)
  from k(1) len have m: "es2 ! k \<in> set es2" by simp
  from ni e have "ev_id (es2 ! k) \<noteq> Name ''__proto__''" by (simp add: inherited_proto)
  from eventIdxById_defined[OF m this] e obtain n where
    "eventIdxById_loop es2 0 Map.empty (ev_id (es1 ! k)) = Some n" by auto
  with k ni show "\<exists>t n. topEventId (eventsUnder ! i) = Some t
        \<and> eventIdxById_loop es2 0 Map.empty t = Some n \<and> \<not> inherited t" by blast
qed

text \<open>The anchors are events of the primary array.\<close>

lemma anchors_plain:
  assumes g: "getEventsUnder es = (es1, eventsUnder)"
    and plain: "\<forall>e \<in> set es1. \<not> inherited (ev_id e)"
  shows "\<forall>u \<in> set eventsUnder. \<not> inherited (propKey (topEventId u))"
proof
  fix u assume "u \<in> set eventsUnder"
  from getEventsUnder_anchored[OF g this] obtain k where
    "k < length es1" "topEventId u = Some (ev_id (es1 ! k))" by blast
  with plain show "\<not> inherited (propKey (topEventId u))" by simp
qed

lemma keysOk_init: "keysOk eventsUnder groups 0"
  by (simp add: keysOk_def)

text \<open>What \<open>processEventsUnder\<close> returns differs from \<open>_eventsUnder\<close> in left and width
  only.\<close>

lemma processEventsUnder_unplace:
  "processEventsUnder eventsUnder es = Inr eventsUnder' \<Longrightarrow>
   map unplace eventsUnder' = map unplace eventsUnder"
  by (auto simp: processEventsUnder_def split: sum.splits)

text \<open>When no nested event names an anchor whose id is a property of
  \<open>Object.prototype\<close>, \<open>processEventsUnder\<close> returns.\<close>

lemma processEventsUnder_Inr:
  assumes g: "getEventsUnder es = (es1, eventsUnder)"
    and ids: "map ev_id es2 = map ev_id es1"
    and plain: "\<forall>u \<in> set eventsUnder. \<not> inherited (propKey (topEventId u))"
  shows "\<exists>eventsUnder'. processEventsUnder eventsUnder es2 = Inr eventsUnder'
           \<and> map unplace eventsUnder' = map unplace eventsUnder"
proof -
  from processEventsUnder_loop_Inr[OF anchorsKnown_getEventsUnder[OF g ids plain] keysOk_init]
  obtain groups where
    "processEventsUnder_loop eventsUnder es2 (eventIdxById_loop es2 0 Map.empty) [] 0 = Inr groups"
    by blast
  then show ?thesis by (simp add: processEventsUnder_def)
qed

lemma map_ev_id_unplace:
  "map unplace a = map unplace b \<Longrightarrow> map ev_id a = map ev_id b"
proof -
  assume "map unplace a = map unplace b"
  then have "map ev_id (map unplace a) = map ev_id (map unplace b)" by simp
  then show ?thesis by (simp add: comp_def)
qed

lemma primaryAndUnder_ids:
  "mset (map ev_id (fst (primaryAndUnder xs))) + mset (map ev_id (snd (primaryAndUnder xs)))
     = mset (map ev_id (truthyPrefix xs))"
proof -
  obtain es1 eventsUnder where
    g: "getEventsUnder (updateCollisions (sortEvents (cloneEvents_loop xs []))) = (es1, eventsUnder)"
    and p: "primaryAndUnder xs = (setLayOutParams es1 MIN_LEFT MAX_WIDTH, eventsUnder)"
    by (rule primaryAndUnder_cases)
  have c: "map ev_id (map cloneOf (truthyPrefix xs)) = map ev_id (truthyPrefix xs)"
    by (simp add: comp_def)
  have "mset (map ev_id (sortEvents (cloneEvents_loop xs [])))
      = image_mset ev_id (mset (sortEvents (cloneEvents_loop xs [])))" by simp
  also have "\<dots> = image_mset ev_id (mset (map cloneOf (truthyPrefix xs)))"
    by (simp only: mset_sortEvents cloneEvents_loop_eq append_Nil)
  also have "\<dots> = mset (map ev_id (map cloneOf (truthyPrefix xs)))" by (simp only: mset_map)
  also have "\<dots> = mset (map ev_id (truthyPrefix xs))" by (simp only: c)
  finally have s: "mset (map ev_id (sortEvents (cloneEvents_loop xs [])))
      = mset (map ev_id (truthyPrefix xs))" .
  from getEventsUnder_ids[OF g] s p show ?thesis by simp
qed

text \<open>A list that \<open>layOutDay\<close> returns holds the normalized primary events, then the
  nested events with their fields other than left and width as \<open>getEventsUnder\<close> left
  them.\<close>

lemma layOutDay_Inr_shape:
  assumes "layOutDay (JsArray xs) = Inr out"
  obtains eventsUnder' where
    "out = normalizeEvents (fst (primaryAndUnder xs) @ eventsUnder')"
    "map unplace eventsUnder' = map unplace (snd (primaryAndUnder xs))"
proof (cases "processEventsUnder (snd (primaryAndUnder xs)) (fst (primaryAndUnder xs))")
  case (Inl err)
  with assms show thesis by (simp add: layOutDay_array_eq)
next
  case (Inr eventsUnder')
  with assms have "out = normalizeEvents (fst (primaryAndUnder xs) @ eventsUnder')"
    by (simp add: layOutDay_array_eq)
  with processEventsUnder_unplace[OF Inr] that show thesis by blast
qed

lemma layOutDay_ids_mset:
  assumes "layOutDay (JsArray xs) = Inr out"
  shows "mset (map ev_id out) = mset (map ev_id (truthyPrefix xs))"
proof -
  from assms obtain eventsUnder' where
    l: "out = normalizeEvents (fst (primaryAndUnder xs) @ eventsUnder')"
    and u: "map unplace eventsUnder' = map unplace (snd (primaryAndUnder xs))"
    by (rule layOutDay_Inr_shape)
  from l have "out = map normalOf (fst (primaryAndUnder xs) @ eventsUnder')"
    by (simp add: normalizeEvents_eq)
  then have "map ev_id out = map ev_id (fst (primaryAndUnder xs)) @ map ev_id eventsUnder'"
    by (simp add: comp_def)
  with map_ev_id_unplace[OF u] primaryAndUnder_ids[of xs] show ?thesis by simp
qed

text \<open>The ids of the primary array are ids of the input.\<close>

lemma primary_ids_subset:
  "ev_id ` set (fst (primaryAndUnder xs)) \<subseteq> ev_id ` set (truthyPrefix xs)"
proof -
  have "set_mset (mset (map ev_id (fst (primaryAndUnder xs))))
      \<subseteq> set_mset (mset (map ev_id (truthyPrefix xs)))"
    unfolding primaryAndUnder_ids[of xs, symmetric] by simp
  then show ?thesis by simp
qed

text \<open>On an array in which no nested event names an anchor whose id is a property of
  \<open>Object.prototype\<close>, \<open>layOutDay\<close> returns a list; so it does when no id at all is such
  a property.\<close>

lemma layOutDay_array:
  assumes plain: "\<forall>u \<in> set (snd (primaryAndUnder xs)). \<not> inherited (propKey (topEventId u))"
  obtains eventsUnder' where
    "layOutDay (JsArray xs) = Inr (normalizeEvents (fst (primaryAndUnder xs) @ eventsUnder'))"
    "map unplace eventsUnder' = map unplace (snd (primaryAndUnder xs))"
proof -
  obtain es1 eventsUnder where
    g: "getEventsUnder (updateCollisions (sortEvents (cloneEvents_loop xs []))) = (es1, eventsUnder)"
    and p: "primaryAndUnder xs = (setLayOutParams es1 MIN_LEFT MAX_WIDTH, eventsUnder)"
    by (rule primaryAndUnder_cases)
  have ids: "map ev_id (setLayOutParams es1 MIN_LEFT MAX_WIDTH) = map ev_id es1" by simp
  from plain p have "\<forall>u \<in> set eventsUnder. \<not> inherited (propKey (topEventId u))" by simp
  from processEventsUnder_Inr[OF g ids this]
  obtain eventsUnder' where
    "processEventsUnder eventsUnder (setLayOutParams es1 MIN_LEFT MAX_WIDTH) = Inr eventsUnder'"
    "map unplace eventsUnder' = map unplace eventsUnder" by auto
  with p that show thesis by (simp add: layOutDay_array_eq)
qed

lemma primaryAndUnder_plain:
  assumes plain: "\<forall>e \<in> set (truthyPrefix xs). \<not> inherited (ev_id e)"
  shows "\<forall>u \<in> set (snd (primaryAndUnder xs)). \<not> inherited (propKey (topEventId u))"
proof -
  obtain es1 eventsUnder where
    g: "getEventsUnder (updateCollisions (sortEvents (cloneEvents_loop xs []))) = (es1, eventsUnder)"
    and p: "primaryAndUnder xs = (setLayOutParams es1 MIN_LEFT MAX_WIDTH, eventsUnder)"
    by (rule primaryAndUnder_cases)
  have ids: "map ev_id (setLayOutParams es1 MIN_LEFT MAX_WIDTH) = map ev_id es1" by simp
  have "ev_id ` set es1 \<subseteq> ev_id ` set (truthyPrefix xs)"
  proof -
    from arg_cong[OF ids, of set]
    have "ev_id ` set es1 = ev_id ` set (setLayOutParams es1 MIN_LEFT MAX_WIDTH)"
      by (simp only: set_map)
    also have "\<dots> = ev_id ` set (fst (primaryAndUnder xs))" by (simp only: p fst_conv)
    finally show ?thesis using primary_ids_subset[of xs] by simp
  qed
  with plain have "\<forall>e \<in> set es1. \<not> inherited (ev_id e)" by force
  from anchors_plain[OF g this] p show ?thesis by simp
qed

lemma layOutDay_array_Inr:
  assumes "\<forall>e \<in> set (truthyPrefix xs). \<not> inherited (ev_id e)"
  shows "\<exists>out. layOutDay (JsArray xs) = Inr out"
  by (rule layOutDay_array[OF primaryAndUnder_plain[OF assms]]) blast

section \<open>Coverage of the ids\<close>

text \<open>
  Claim C2. For an array of events with pairwise distinct ids, the list that \<open>layOutDay\<close>
  returns has the input ids, each exactly once: none is dropped, none is doubled. The
  list is returned whenever no id is a property of \<open>Object.prototype\<close>.
\<close>

theorem layOutDay_ids_bijection:
  assumes "distinct (map ev_id es)"
  shows "(\<forall>out. layOutDay (JsArray (map Some es)) = Inr out \<longrightarrow>
             mset (map ev_id out) = mset (map ev_id es)
           \<and> distinct (map ev_id out)
           \<and> set (map ev_id out) = set (map ev_id es))
       \<and> ((\<forall>e \<in> set es. \<not> inherited (ev_id e)) \<longrightarrow>
            (\<exists>out. layOutDay (JsArray (map Some es)) = Inr out))"
proof (intro conjI allI impI)
  fix out assume out: "layOutDay (JsArray (map Some es)) = Inr out"
  from layOutDay_ids_mset[OF out] show m: "mset (map ev_id out) = mset (map ev_id es)" by simp
  from m assms show "distinct (map ev_id out)" by (metis mset_eq_imp_distinct_iff)
  from m show "set (map ev_id out) = set (map ev_id es)" by (rule mset_eq_setD)
next
  assume "\<forall>e \<in> set es. \<not> inherited (ev_id e)"
  then have "\<forall>e \<in> set (truthyPrefix (map Some es)). \<not> inherited (ev_id e)" by simp
  then show "\<exists>out. layOutDay (JsArray (map Some es)) = Inr out" by (rule layOutDay_array_Inr)
qed

theorem layOutDay_ids_bijection_witness:
  "distinct (map ev_id [\<lparr>ev_id = Num 1, ev_start = 0, ev_end = 60\<rparr>,
                        \<lparr>ev_id = Num 2, ev_start = 30, ev_end = 90\<rparr>])
   \<and> (\<exists>out. layOutDay (JsArray (map Some [\<lparr>ev_id = Num 1, ev_start = 0, ev_end = 60\<rparr>,
                                            \<lparr>ev_id = Num 2, ev_start = 30, ev_end = 90\<rparr>])) = Inr out
           \<and> mset (map ev_id out) = mset (map ev_id [\<lparr>ev_id = Num 1, ev_start = 0, ev_end = 60\<rparr>,
                                                     \<lparr>ev_id = Num 2, ev_start = 30, ev_end = 90\<rparr>])
           \<and> distinct (map ev_id out)
           \<and> set (map ev_id out) = set (map ev_id [\<lparr>ev_id = Num 1, ev_start = 0, ev_end = 60\<rparr>,
                                                   \<lparr>ev_id = Num 2, ev_start = 30, ev_end = 90\<rparr>]))"
proof -
  have d: "distinct (map ev_id [\<lparr>ev_id = Num 1, ev_start = 0, ev_end = 60\<rparr>,
                        \<lparr>ev_id = Num 2, ev_start = 30, ev_end = 90\<rparr>])" by simp
  have n: "\<forall>e \<in> set [\<lparr>ev_id = Num 1, ev_start = 0, ev_end = 60\<rparr>,
                        \<lparr>ev_id = Num 2, ev_start = 30, ev_end = 90\<rparr>]. \<not> inherited (ev_id e)"
    by simp
  from layOutDay_ids_bijection[OF d] n d show ?thesis by blast
qed

section \<open>Errors\<close>

text \<open>The only error of the nested layout resolver is the \<open>TypeError\<close>.\<close>

lemma fitBetween_Inl:
  "fitBetween eventsUnder groups ev eventGroup topLeft i left width j = Inl err \<Longrightarrow>
   err = TypeError"
proof (induction eventsUnder groups ev eventGroup topLeft i left width j rule: fitBetween.induct)
  case (1 eventsUnder groups ev eventGroup topLeft i left width j)
  from "1.prems" "1.IH" show ?case
    by (subst (asm) fitBetween.simps) (auto simp: Let_def split: if_splits option.splits)
qed

lemma processEventsUnder_step_Inl:
  assumes "processEventsUnder_step eventsUnder es eventIdxById groups i = Inl err"
  shows "err = TypeError"
proof (rule ccontr)
  assume ne: "err \<noteq> TypeError"
  define t where "t = propKey (topEventId (eventsUnder ! i))"
  from assms ne have c: "\<not> (map_of groups t = None \<and> inherited t)"
    by (auto simp: processEventsUnder_step_def Let_def t_def)
  from assms ne c obtain k where k: "eventIdxById t = Some k"
    by (cases "eventIdxById t") (auto simp: processEventsUnder_step_def Let_def t_def)
  from assms c k ne show False
    unfolding processEventsUnder_step_def Let_def t_def[symmetric]
    by (auto split: if_splits sum.splits prod.splits dest: fitBetween_Inl)
qed

lemma processEventsUnder_loop_Inl:
  "processEventsUnder_loop eventsUnder es eventIdxById groups i = Inl err \<Longrightarrow> err = TypeError"
proof (induction eventsUnder es eventIdxById groups i rule: processEventsUnder_loop.induct)
  case (1 eventsUnder es eventIdxById groups i)
  from "1.prems" "1.IH" show ?case
    by (subst (asm) processEventsUnder_loop.simps)
       (auto split: if_splits sum.splits dest: processEventsUnder_step_Inl)
qed

lemma layOutDay_array_Inl:
  assumes "layOutDay (JsArray xs) = Inl err"
  shows "err = TypeError"
proof -
  from assms have
    "processEventsUnder (snd (primaryAndUnder xs)) (fst (primaryAndUnder xs)) = Inl err"
    by (auto simp: layOutDay_array_eq split: sum.splits)
  then show ?thesis
    by (auto simp: processEventsUnder_def split: sum.splits dest: processEventsUnder_loop_Inl)
qed

text \<open>
  On an array \<open>layOutDay\<close> raises exactly when some nested event names an anchor whose id
  is a property of \<open>Object.prototype\<close>; what it raises then is the \<open>TypeError\<close>.
\<close>

lemma layOutDay_raises_iff:
  "layOutDay (JsArray xs) = Inl TypeError \<longleftrightarrow>
   (\<exists>u \<in> set (snd (primaryAndUnder xs)). inherited (propKey (topEventId u)))"
proof
  assume r: "layOutDay (JsArray xs) = Inl TypeError"
  show "\<exists>u \<in> set (snd (primaryAndUnder xs)). inherited (propKey (topEventId u))"
  proof (rule ccontr)
    assume "\<not> (\<exists>u \<in> set (snd (primaryAndUnder xs)). inherited (propKey (topEventId u)))"
    then have "\<forall>u \<in> set (snd (primaryAndUnder xs)). \<not> inherited (propKey (topEventId u))"
      by blast
    then obtain eventsUnder' where
      "layOutDay (JsArray xs) = Inr (normalizeEvents (fst (primaryAndUnder xs) @ eventsUnder'))"
      by (rule layOutDay_array)
    with r show False by simp
  qed
next
  assume "\<exists>u \<in> set (snd (primaryAndUnder xs)). inherited (propKey (topEventId u))"
  obtain es1 eventsUnder where
    g: "getEventsUnder (updateCollisions (sortEvents (cloneEvents_loop xs []))) = (es1, eventsUnder)"
    and p: "primaryAndUnder xs = (setLayOutParams es1 MIN_LEFT MAX_WIDTH, eventsUnder)"
    by (rule primaryAndUnder_cases)
  define es2 where "es2 = setLayOutParams es1 MIN_LEFT MAX_WIDTH"
  have ids: "map ev_id es2 = map ev_id es1" by (simp add: es2_def)
  from \<open>\<exists>u \<in> set (snd (primaryAndUnder xs)). inherited (propKey (topEventId u))\<close> p
  have "\<exists>m. m < length eventsUnder \<and> inherited (propKey (topEventId (eventsUnder ! m)))"
    by (auto simp: in_set_conv_nth)
  then obtain n where n: "n < length eventsUnder"
    "inherited (propKey (topEventId (eventsUnder ! n)))"
    and least: "\<forall>m<n. \<not> (m < length eventsUnder \<and> inherited (propKey (topEventId (eventsUnder ! m))))"
    using exists_least_iff[of "\<lambda>m. m < length eventsUnder
        \<and> inherited (propKey (topEventId (eventsUnder ! m)))"] by auto
  have before: "\<forall>j. 0 \<le> j \<and> j < n \<longrightarrow>
           (\<exists>t k. topEventId (eventsUnder ! j) = Some t
                  \<and> eventIdxById_loop es2 0 Map.empty t = Some k \<and> \<not> inherited t)"
  proof (intro allI impI)
    fix j assume j: "0 \<le> j \<and> j < n"
    with n(1) have jl: "j < length eventsUnder" by simp
    then have mem: "eventsUnder ! j \<in> set eventsUnder" by simp
    from getEventsUnder_anchored[OF g mem] obtain k where
      k: "k < length es1" "topEventId (eventsUnder ! j) = Some (ev_id (es1 ! k))" by blast
    from least j jl k(2) have ni: "\<not> inherited (ev_id (es1 ! k))" by force
    from ids have len: "length es2 = length es1" by (metis length_map)
    from ids k(1) len have e: "ev_id (es2 ! k) = ev_id (es1 ! k)" by (metis nth_map)
    from k(1) len have m: "es2 ! k \<in> set es2" by simp
    from ni e have "ev_id (es2 ! k) \<noteq> Name ''__proto__''" by (simp add: inherited_proto)
    from eventIdxById_defined[OF m this] e obtain q where
      "eventIdxById_loop es2 0 Map.empty (ev_id (es1 ! k)) = Some q" by auto
    with k ni show "\<exists>t k. topEventId (eventsUnder ! j) = Some t
                  \<and> eventIdxById_loop es2 0 Map.empty t = Some k \<and> \<not> inherited t" by blast
  qed
  have "processEventsUnder_loop eventsUnder es2 (eventIdxById_loop es2 0 Map.empty) [] 0
      = Inl TypeError"
    by (rule processEventsUnder_loop_raises[OF _ n before keysOk_init]) simp_all
  then have "processEventsUnder eventsUnder es2 = Inl TypeError"
    by (simp add: processEventsUnder_def)
  with p show "layOutDay (JsArray xs) = Inl TypeError"
    by (simp add: layOutDay_array_eq es2_def)
qed

text \<open>\<open>layOutDay\<close> raises \<open>InvalidInput\<close> exactly when its argument is no array.\<close>

lemma layOutDay_InvalidInput_iff: "layOutDay arg = Inl InvalidInput \<longleftrightarrow> arg = NotArray"
proof (cases arg)
  case NotArray
  then show ?thesis by (simp add: layOutDay_def)
next
  case (JsArray xs)
  with layOutDay_array_Inl[of xs InvalidInput] show ?thesis by auto
qed

text \<open>
  Claim C7 says that \<open>layOutDay\<close> completes without raising on every array of well-formed
  events. The events below are well formed and their ids are pairwise distinct. The
  event with the id 3 is nested under the event with the id \<open>'toString'\<close>; for this key
  \<open>eventsGroups[eventAtTopId]\<close> is the function that every object inherits, so that no
  group is made and \<open>eventGroup.items.push(event)\<close> throws a \<open>TypeError\<close>. The last loop of
  \<open>processEventsUnder\<close> does tell the hash's own keys from the inherited ones, with
  \<open>hasOwnProperty\<close>; the test \<open>!eventsGroups[eventAtTopId]\<close> does not.
\<close>

theorem layOutDay_prototype_key_raises:
  "list_all wellFormed toStringEvents
   \<and> distinct (map ev_id toStringEvents)
   \<and> layOutDay (JsArray (map Some toStringEvents)) = Inl TypeError"
proof -
  have "list_all wellFormed toStringEvents" by (simp add: toStringEvents_def wellFormed_def)
  moreover have "distinct (map ev_id toStringEvents)" by (simp add: toStringEvents_def)
  moreover have "layOutDay (JsArray (map Some toStringEvents)) = Inl TypeError" by code_simp
  ultimately show ?thesis by simp
qed

section \<open>A falsy element ends the input\<close>

text \<open>
  When the element at position \<open>k\<close> of the array is falsy and the elements before it are
  events, \<open>layOutDay\<close> does what it does on the first \<open>k\<close> elements alone: the falsy element
  and all that follows are dropped. When it returns, the returned list has the ids of
  the first \<open>k\<close> elements, and it returns whenever none of these ids is a property of
  \<open>Object.prototype\<close>.
\<close>

lemma layOutDay_falsy_prefix:
  "layOutDay (JsArray (map Some es @ None # rest)) = layOutDay (JsArray (map Some es))
   \<and> (\<forall>out. layOutDay (JsArray (map Some es @ None # rest)) = Inr out \<longrightarrow>
          mset (map ev_id out) = mset (map ev_id es) \<and> length out = length es)
   \<and> ((\<forall>e \<in> set es. \<not> inherited (ev_id e)) \<longrightarrow>
          (\<exists>out. layOutDay (JsArray (map Some es @ None # rest)) = Inr out))"
proof (intro conjI allI impI)
  have "cloneEvents_loop (map Some es @ None # rest) [] = cloneEvents_loop (map Some es) []"
    by (simp add: cloneEvents_loop_eq)
  then have "primaryAndUnder (map Some es @ None # rest) = primaryAndUnder (map Some es)"
    by (simp add: primaryAndUnder_def)
  then show "layOutDay (JsArray (map Some es @ None # rest)) = layOutDay (JsArray (map Some es))"
    by (simp add: layOutDay_array_eq cong: sum.case_cong)
next
  fix out assume "layOutDay (JsArray (map Some es @ None # rest)) = Inr out"
  from layOutDay_ids_mset[OF this] show m: "mset (map ev_id out) = mset (map ev_id es)" by simp
  from m have "size (mset (map ev_id out)) = size (mset (map ev_id es))" by simp
  then show "length out = length es" by simp
next
  assume "\<forall>e \<in> set es. \<not> inherited (ev_id e)"
  then have "\<forall>e \<in> set (truthyPrefix (map Some es @ None # rest)). \<not> inherited (ev_id e)"
    by simp
  then show "\<exists>out. layOutDay (JsArray (map Some es @ None # rest)) = Inr out"
    by (rule layOutDay_array_Inr)
qed

text \<open>
  Claim C10 says that on an array whose first \<open>k\<close> elements are well-formed events and
  whose element at position \<open>k\<close> is falsy \<open>layOutDay\<close> raises no error. Below, the first
  three elements are well-formed events with pairwise distinct ids, the fourth is
  \<open>null\<close>, and the call raises a \<open>TypeError\<close>: the event with the id 3 is nested under the
  event with the id \<open>'toString'\<close>, a key that \<open>eventsGroups\<close> inherits.
\<close>

theorem layOutDay_falsy_element_raises:
  "list_all wellFormed toStringEvents
   \<and> distinct (map ev_id toStringEvents)
   \<and> layOutDay (JsArray (map Some toStringEvents
                            @ [None, Some \<lparr>ev_id = Num 4, ev_start = 0, ev_end = 30\<rparr>]))
       = Inl TypeError"
proof -
  have "list_all wellFormed toStringEvents" by (simp add: toStringEvents_def wellFormed_def)
  moreover have "distinct (map ev_id toStringEvents)" by (simp add: toStringEvents_def)
  moreover have "layOutDay (JsArray (map Some toStringEvents
                            @ [None, Some \<lparr>ev_id = Num 4, ev_start = 0, ev_end = 30\<rparr>]))
       = Inl TypeError" by code_simp
  ultimately show ?thesis by simp
qed

section \<open>Bounds\<close>

text \<open>
  Claim C3 says \<open>left \<ge> 10\<close> and \<open>left + width \<le> 620\<close> for every output record. A single
  event takes the whole width: \<open>left = 10\<close>, \<open>width = 620\<close>, so \<open>left + width = 630\<close>.
\<close>

theorem layOutDay_single_event_630:
  "layOutDay (JsArray [Some \<lparr>ev_id = Num 1, ev_start = 0, ev_end = 60\<rparr>])
     = Inr [\<lparr>ev_id = Num 1, ev_start = 0, ev_end = 60, ev_left = 10, ev_width = 620, ev_top = 0\<rparr>]
   \<and> \<not> (ev_left \<lparr>ev_id = Num 1, ev_start = 0, ev_end = 60, ev_left = 10, ev_width = 620, ev_top = 0\<rparr>
        + ev_width \<lparr>ev_id = Num 1, ev_start = 0, ev_end = 60, ev_left = 10, ev_width = 620, ev_top = 0\<rparr>
        \<le> (620::int))"
proof -
  have "layOutDay (JsArray [Some \<lparr>ev_id = Num 1, ev_start = 0, ev_end = 60\<rparr>])
     = Inr [\<lparr>ev_id = Num 1, ev_start = 0, ev_end = 60, ev_left = 10, ev_width = 620, ev_top = 0\<rparr>]"
    by code_simp
  then show ?thesis by simp
qed

text \<open>
  Claim C3, amended. The records of the primary array, which come first in the output,
  lie in the window of \<open>setLayOutParams\<close>: \<open>left \<ge> 10\<close> and \<open>left + width \<le> 630\<close>.
\<close>

theorem layOutDay_primary_bounds:
  assumes "layOutDay (JsArray xs) = Inr out" and "k < length (fst (primaryAndUnder xs))"
  shows "k < length out \<and> ev_id (out ! k) = ev_id (fst (primaryAndUnder xs) ! k)
       \<and> 10 \<le> ev_left (out ! k) \<and> ev_left (out ! k) + ev_width (out ! k) \<le> 630"
proof -
  from assms(1) obtain eventsUnder' where
    "out = normalizeEvents (fst (primaryAndUnder xs) @ eventsUnder')"
    by (rule layOutDay_Inr_shape)
  then have out: "out = map normalOf (fst (primaryAndUnder xs) @ eventsUnder')"
    by (simp add: normalizeEvents_eq)
  with assms(2) have k: "k < length out" and e: "out ! k = normalOf (fst (primaryAndUnder xs) ! k)"
    by (simp_all add: nth_append)
  obtain es1 eventsUnder where
    p: "primaryAndUnder xs = (setLayOutParams es1 MIN_LEFT MAX_WIDTH, eventsUnder)"
    by (rule primaryAndUnder_cases)
  with assms(2) have "fst (primaryAndUnder xs) ! k \<in> set (setLayOutParams es1 MIN_LEFT MAX_WIDTH)"
    by simp
  then have "inWindow MIN_LEFT MAX_WIDTH (fst (primaryAndUnder xs) ! k)"
    by (intro setLayOutParams_inWindow) (simp_all add: MAX_WIDTH_def)
  with k e show ?thesis by (simp add: inWindow_def MIN_LEFT_def MAX_WIDTH_def)
qed

theorem layOutDay_primary_bounds_witness:
  "layOutDay (JsArray [Some \<lparr>ev_id = Num 1, ev_start = 0, ev_end = 60\<rparr>])
     = Inr [\<lparr>ev_id = Num 1, ev_start = 0, ev_end = 60, ev_left = 10, ev_width = 620, ev_top = 0\<rparr>]
   \<and> 0 < length (fst (primaryAndUnder [Some \<lparr>ev_id = Num 1, ev_start = 0, ev_end = 60\<rparr>]))
   \<and> 10 \<le> ev_left ([\<lparr>ev_id = Num 1, ev_start = 0, ev_end = 60, ev_left = 10, ev_width = 620,
                       ev_top = 0\<rparr>] ! 0)
   \<and> ev_left ([\<lparr>ev_id = Num 1, ev_start = 0, ev_end = 60, ev_left = 10, ev_width = 620,
                 ev_top = 0\<rparr>] ! 0)
     + ev_width ([\<lparr>ev_id = Num 1, ev_start = 0, ev_end = 60, ev_left = 10, ev_width = 620,
                   ev_top = 0\<rparr>] ! 0) \<le> 630"
proof -
  have a: "layOutDay (JsArray [Some \<lparr>ev_id = Num 1, ev_start = 0, ev_end = 60\<rparr>])
     = Inr [\<lparr>ev_id = Num 1, ev_start = 0, ev_end = 60, ev_left = 10, ev_width = 620, ev_top = 0\<rparr>]"
    by code_simp
  have b: "0 < length (fst (primaryAndUnder [Some \<lparr>ev_id = Num 1, ev_start = 0, ev_end = 60\<rparr>]))"
    by code_simp
  from layOutDay_primary_bounds[OF a b] a b show ?thesis by blast
qed

text \<open>
  The bound does not extend to the nested events: on the seven events below event 3 is
  put under event 7, where its window is computed as 310 wide from \<open>left = 475\<close>.
\<close>

lemma layOutDay_nested_beyond_630:
  "layOutDay (JsArray
       [Some \<lparr>ev_id = Num 1, ev_start = 0, ev_end = 360\<rparr>,
        Some \<lparr>ev_id = Num 2, ev_start = 180, ev_end = 360\<rparr>,
        Some \<lparr>ev_id = Num 3, ev_start = 300, ev_end = 360\<rparr>,
        Some \<lparr>ev_id = Num 4, ev_start = 60, ev_end = 180\<rparr>,
        Some \<lparr>ev_id = Num 5, ev_start = 120, ev_end = 300\<rparr>,
        Some \<lparr>ev_id = Num 6, ev_start = 300, ev_end = 360\<rparr>,
        Some \<lparr>ev_id = Num 7, ev_start = 120, ev_end = 300\<rparr>])
   = Inr [\<lparr>ev_id = Num 1, ev_start = 0, ev_end = 360, ev_left = 10, ev_width = 155, ev_top = 0\<rparr>,
          \<lparr>ev_id = Num 4, ev_start = 60, ev_end = 180, ev_left = 165, ev_width = 155, ev_top = 60\<rparr>,
          \<lparr>ev_id = Num 7, ev_start = 120, ev_end = 300, ev_left = 320, ev_width = 155, ev_top = 120\<rparr>,
          \<lparr>ev_id = Num 5, ev_start = 120, ev_end = 300, ev_left = 475, ev_width = 155, ev_top = 120\<rparr>,
          \<lparr>ev_id = Num 2, ev_start = 180, ev_end = 360, ev_left = 165, ev_width = 155, ev_top = 180\<rparr>,
          \<lparr>ev_id = Num 6, ev_start = 300, ev_end = 360, ev_left = 320, ev_width = 155, ev_top = 300\<rparr>,
          \<lparr>ev_id = Num 3, ev_start = 300, ev_end = 360, ev_left = 475, ev_width = 310, ev_top = 300\<rparr>]"
  by code_simp

section \<open>One nested event for each anchor\<close>

lemma map_hasEventUnder_updateCollisions [simp]:
  "map hasEventUnder (updateCollisions es) = map hasEventUnder es"
  by (rule nth_equalityI) (simp_all add: updateCollisions_nth_fields)

lemma length_filter_flags:
  "length (filter hasEventUnder es) = length (filter (\<lambda>b. b) (map hasEventUnder es))"
  by (simp add: filter_map comp_def)

lemma filter_splice1:
  assumes "i < length es" and "\<not> P (es ! i)"
  shows "filter P (splice1 es i) = filter P es"
proof -
  from assms(1) have "es = take i es @ es ! i # drop (Suc i) es" by (rule id_take_nth_drop)
  then have "filter P es = filter P (take i es @ es ! i # drop (Suc i) es)" by simp
  also have "\<dots> = filter P (take i es) @ filter P (drop (Suc i) es)" using assms(2) by simp
  finally show ?thesis by (simp add: splice1_def)
qed

lemma length_filter_update:
  assumes "j < length xs" and "\<not> P (xs ! j)" and "P x"
  shows "length (filter P (xs[j := x])) = Suc (length (filter P xs))"
proof -
  from assms(1) have a: "xs = take j xs @ xs ! j # drop (Suc j) xs" by (rule id_take_nth_drop)
  from assms(1) have b: "xs[j := x] = take j xs @ x # drop (Suc j) xs"
    by (rule upd_conv_take_nth_drop)
  have "length (filter P xs) = length (filter P (take j xs @ xs ! j # drop (Suc j) xs))"
    using a by simp
  also have "\<dots> = length (filter P (take j xs)) + length (filter P (drop (Suc j) xs))"
    using assms(2) by simp
  finally show ?thesis unfolding b using assms(3) by simp
qed

lemma nth_splice1_above:
  "i \<le> k \<Longrightarrow> Suc k < length es \<Longrightarrow> splice1 es i ! k = es ! Suc k"
  by (simp add: splice1_def nth_append min_def)

lemma flagsInv_move:
  assumes inv: "flagsInv es eventsUnder i" and lt: "i < length es" and j: "j < i"
    and nf: "\<not> hasEventUnder (es ! j)"
  shows "flagsInv (moveUnder es i j) (eventsUnder @ [x]) i"
proof -
  define es1 where "es1 = splice1 es i"
  define es2 where "es2 = es1[j := (es1 ! j)\<lparr>hasEventUnder := True\<rparr>]"
  from inv have cnt: "length (filter hasEventUnder es) = length eventsUnder"
    and above: "\<forall>k. i \<le> k \<and> k < length es \<longrightarrow> \<not> hasEventUnder (es ! k)"
    by (simp_all add: flagsInv_def)
  from above lt have ni: "\<not> hasEventUnder (es ! i)" by simp
  have len1: "length es1 = length es - 1" unfolding es1_def using lt by (rule length_splice1)
  from j lt len1 have j1: "j < length es1" by simp
  have ej: "es1 ! j = es ! j" unfolding es1_def using j lt by (rule nth_splice1_below)
  have f1: "filter hasEventUnder es1 = filter hasEventUnder es"
    unfolding es1_def using lt ni by (rule filter_splice1)
  have "length (filter hasEventUnder es2) = Suc (length (filter hasEventUnder es1))"
    unfolding es2_def by (rule length_filter_update[OF j1]) (simp_all add: ej nf)
  with f1 cnt have c2: "length (filter hasEventUnder es2) = length (eventsUnder @ [x])" by simp
  have m: "moveUnder es i j = updateCollisions es2"
    by (simp add: moveUnder_def es2_def es1_def)
  have flags: "map hasEventUnder (moveUnder es i j) = map hasEventUnder es2"
    unfolding m by simp
  have "length (filter hasEventUnder (moveUnder es i j)) = length (filter hasEventUnder es2)"
    by (simp only: length_filter_flags flags)
  with c2 have c: "length (filter hasEventUnder (moveUnder es i j)) = length (eventsUnder @ [x])"
    by simp
  have len2: "length (moveUnder es i j) = length es - 1" using lt by (rule length_moveUnder)
  have "\<forall>k. i \<le> k \<and> k < length (moveUnder es i j) \<longrightarrow> \<not> hasEventUnder (moveUnder es i j ! k)"
  proof (intro allI impI)
    fix k assume k: "i \<le> k \<and> k < length (moveUnder es i j)"
    with len2 lt have sk: "Suc k < length es" by linarith
    from k len2 len1 have k2: "k < length es2" by (simp add: es2_def)
    from k j have kj: "k \<noteq> j" by simp
    have "hasEventUnder (moveUnder es i j ! k) = hasEventUnder (es2 ! k)"
      unfolding m using k2 by (simp add: updateCollisions_nth_fields)
    also have "\<dots> = hasEventUnder (es1 ! k)" using kj by (simp add: es2_def)
    also have "\<dots> = hasEventUnder (es ! Suc k)"
      unfolding es1_def using k sk by (simp add: nth_splice1_above)
    finally show "\<not> hasEventUnder (moveUnder es i j ! k)" using above k sk by simp
  qed
  with c show ?thesis by (simp add: flagsInv_def)
qed

lemma flagsInv_skip: "flagsInv es eventsUnder i \<Longrightarrow> flagsInv es eventsUnder (Suc i)"
  by (simp add: flagsInv_def)

text \<open>Each removal sets the flag of an event that did not have it: when no flag is set
  at the start, as many events of the primary array end with their flag set as there
  are nested events.\<close>

lemma getEventsUnder_flags:
  assumes g: "getEventsUnder es = (es1, eventsUnder)"
    and clear: "\<forall>e \<in> set es. \<not> hasEventUnder e"
  shows "length (filter hasEventUnder es1) = length eventsUnder"
proof -
  from g obtain un where l: "getEventsUnder_loop es [] 0 0 = (es1, un)"
    and len: "length eventsUnder = length un" by (rule getEventsUnder_cases)
  have "\<exists>i'. flagsInv (fst (getEventsUnder_loop es [] 0 0))
                 (snd (getEventsUnder_loop es [] 0 0)) i'"
  proof (rule getEventsUnder_loop_rule[where P = flagsInv])
    from clear have "filter hasEventUnder es = []" by (simp add: filter_empty_conv)
    with clear show "flagsInv es [] 0" by (simp add: flagsInv_def)
  qed (simp_all add: flagsInv_move flagsInv_skip)
  with l len show ?thesis by (auto simp: flagsInv_def)
qed

lemma anchorsAt_iff:
  "anchorsAt es eventsUnder ks \<longleftrightarrow>
     length ks = length eventsUnder \<and> distinct ks
   \<and> (\<forall>n<length ks. ks ! n < length es
                   \<and> topEventId (eventsUnder ! n) = Some (ev_id (es ! (ks ! n)))
                   \<and> hasEventUnder (es ! (ks ! n)))"
  by (auto simp: anchorsAt_def list_all_iff)

lemma anchorsInv_move:
  assumes inv: "anchorsInv es eventsUnder i" and lt: "i < length es" and j: "j < i"
    and nf: "\<not> hasEventUnder (es ! j)"
  shows "anchorsInv (moveUnder es i j)
           (eventsUnder @ [(es ! i)\<lparr>topEventId := Some (ev_id (es ! j))\<rparr>]) i"
proof -
  let ?es = "moveUnder es i j"
  let ?eu = "eventsUnder @ [(es ! i)\<lparr>topEventId := Some (ev_id (es ! j))\<rparr>]"
  from inv obtain ks where len: "length ks = length eventsUnder" and d: "distinct ks"
    and a: "\<forall>n<length ks. ks ! n < length es
                   \<and> topEventId (eventsUnder ! n) = Some (ev_id (es ! (ks ! n)))
                   \<and> hasEventUnder (es ! (ks ! n))"
    and below: "\<forall>k \<in> set ks. k < i"
    by (auto simp: anchorsInv_def anchorsAt_iff)
  have lm: "length ?es = length es - 1" using lt by (rule length_moveUnder)
  have jn: "j \<notin> set ks"
  proof
    assume "j \<in> set ks"
    then obtain n where "n < length ks" "ks ! n = j" by (auto simp: in_set_conv_nth)
    with a nf show False by auto
  qed
  have "\<forall>n<length (ks @ [j]). (ks @ [j]) ! n < length ?es
                   \<and> topEventId (?eu ! n) = Some (ev_id (?es ! ((ks @ [j]) ! n)))
                   \<and> hasEventUnder (?es ! ((ks @ [j]) ! n))"
  proof (intro allI impI)
    fix n assume n: "n < length (ks @ [j])"
    show "(ks @ [j]) ! n < length ?es
                   \<and> topEventId (?eu ! n) = Some (ev_id (?es ! ((ks @ [j]) ! n)))
                   \<and> hasEventUnder (?es ! ((ks @ [j]) ! n))"
    proof (cases "n < length ks")
      case True
      then have k: "ks ! n < i" using below by simp
      from True a have t: "topEventId (eventsUnder ! n) = Some (ev_id (es ! (ks ! n)))"
        and f: "hasEventUnder (es ! (ks ! n))" by simp_all
      from k lt lm have "ks ! n < length ?es" by simp
      with True len t f moveUnder_below[OF k lt, of j] show ?thesis
        by (simp add: nth_append)
    next
      case False
      with n have e: "n = length ks" by simp
      from j lt lm have "j < length ?es" by simp
      with e len moveUnder_below[OF j lt, of j] show ?thesis
        by (simp add: nth_append)
    qed
  qed
  moreover have "length (ks @ [j]) = length ?eu" using len by simp
  moreover have "distinct (ks @ [j])" using d jn by simp
  moreover have "\<forall>k \<in> set (ks @ [j]). k < i" using below j by simp
  ultimately show ?thesis unfolding anchorsInv_def anchorsAt_iff by blast
qed

lemma anchorsInv_skip: "anchorsInv es eventsUnder i \<Longrightarrow> anchorsInv es eventsUnder (Suc i)"
  unfolding anchorsInv_def by (meson less_Suc_eq)

text \<open>The nested events have their anchors at pairwise distinct indices of the primary
  array: no event of the primary array anchors two.\<close>

lemma getEventsUnder_anchorsAt:
  assumes g: "getEventsUnder es = (es1, eventsUnder)"
  shows "\<exists>ks. anchorsAt es1 eventsUnder ks"
proof -
  from g obtain un where l: "getEventsUnder_loop es [] 0 0 = (es1, un)"
    and t: "map topEventId eventsUnder = map topEventId un"
    and len: "length eventsUnder = length un" by (rule getEventsUnder_cases)
  have "\<exists>i'. anchorsInv (fst (getEventsUnder_loop es [] 0 0))
                 (snd (getEventsUnder_loop es [] 0 0)) i'"
    by (rule getEventsUnder_loop_rule[where P = anchorsInv])
       (simp_all add: anchorsInv_move anchorsInv_skip, simp add: anchorsInv_def anchorsAt_def)
  with l obtain ks where ks: "anchorsAt es1 un ks" by (auto simp: anchorsInv_def)
  have "anchorsAt es1 eventsUnder ks"
    unfolding anchorsAt_iff
  proof (intro conjI allI impI)
    from ks len show "length ks = length eventsUnder" by (simp add: anchorsAt_iff)
    from ks show "distinct ks" by (simp add: anchorsAt_iff)
  next
    fix n assume n: "n < length ks"
    with ks have nl: "n < length un" by (simp add: anchorsAt_iff)
    from ks n show "ks ! n < length es1" and "hasEventUnder (es1 ! (ks ! n))"
      by (simp_all add: anchorsAt_iff)
    from nth_map[of n un topEventId] nth_map[of n eventsUnder topEventId] t nl len
    have "topEventId (eventsUnder ! n) = topEventId (un ! n)" by simp
    with ks n show "topEventId (eventsUnder ! n) = Some (ev_id (es1 ! (ks ! n)))"
      by (simp add: anchorsAt_iff)
  qed
  then show ?thesis ..
qed

lemma getEventsUnder_primary_ids:
  assumes "getEventsUnder es = (es1, eventsUnder)"
  shows "ev_id ` set es1 \<subseteq> ev_id ` set es"
proof -
  have "set_mset (mset (map ev_id es1)) \<subseteq> set_mset (mset (map ev_id es))"
    unfolding getEventsUnder_ids[OF assms, symmetric] by simp
  then show ?thesis by simp
qed

text \<open>
  Claim C9. In every run of \<open>getEventsUnder\<close> each primary event anchors at most one
  nested event. The inner loop never chooses an event whose flag \<open>hasEventUnder\<close> is set;
  the nested events have their anchors at pairwise distinct indices of the primary
  array, each with its flag set; and, the flags being clear at the start, as many primary
  events have their flag set at the end as there are nested events.

  For events with a unique id, as the source requires of its input, every \<open>topEventId\<close>
  value therefore appears once among the nested events; whenever the loop of
  \<open>processEventsUnder\<close> returns, it has built one group for each nested event, with that
  event as its only item; and it returns whenever no id is a property of
  \<open>Object.prototype\<close>.
\<close>

theorem getEventsUnder_one_per_anchor:
  assumes "getEventsUnder es = (es1, eventsUnder)"
  shows "(\<forall>xs i start j. getEventsUnder_inner xs i start = Some j \<longrightarrow>
            j < i \<and> \<not> hasEventUnder (xs ! j))
       \<and> (\<exists>ks. anchorsAt es1 eventsUnder ks)
       \<and> (\<forall>u \<in> set eventsUnder. \<exists>k<length es1.
            topEventId u = Some (ev_id (es1 ! k)) \<and> hasEventUnder (es1 ! k))
       \<and> ((\<forall>e \<in> set es. \<not> hasEventUnder e) \<longrightarrow>
            length (filter hasEventUnder es1) = length eventsUnder)
       \<and> (distinct (map ev_id es) \<longrightarrow>
            distinct (map topEventId eventsUnder)
          \<and> (\<forall>groups.
               processEventsUnder_loop eventsUnder (setLayOutParams es1 minLeft maxWidth)
                 (eventIdxById_loop (setLayOutParams es1 minLeft maxWidth) 0 Map.empty) [] 0
                 = Inr groups \<longrightarrow>
               groupItems groups = oneEach eventsUnder (length eventsUnder)
             \<and> length groups = length eventsUnder
             \<and> (\<forall>g \<in> snd ` set groups. length (items g) = 1))
          \<and> ((\<forall>e \<in> set es. \<not> inherited (ev_id e)) \<longrightarrow>
               (\<exists>groups.
                  processEventsUnder_loop eventsUnder (setLayOutParams es1 minLeft maxWidth)
                    (eventIdxById_loop (setLayOutParams es1 minLeft maxWidth) 0 Map.empty) [] 0
                    = Inr groups)))"
proof (intro conjI allI impI ballI)
  fix xs i start j assume "getEventsUnder_inner xs i start = Some j"
  from getEventsUnder_inner_Some[OF this]
  show "j < i" and "\<not> hasEventUnder (xs ! j)" by simp_all
next
  show "\<exists>ks. anchorsAt es1 eventsUnder ks" by (rule getEventsUnder_anchorsAt[OF assms])
next
  fix u assume "u \<in> set eventsUnder"
  from getEventsUnder_anchored[OF assms this]
  show "\<exists>k<length es1. topEventId u = Some (ev_id (es1 ! k)) \<and> hasEventUnder (es1 ! k)" .
next
  assume "\<forall>e \<in> set es. \<not> hasEventUnder e"
  with assms show "length (filter hasEventUnder es1) = length eventsUnder"
    by (rule getEventsUnder_flags)
next
  assume d: "distinct (map ev_id es)"
  from getEventsUnder_distinct[OF assms d]
  show "distinct (map topEventId eventsUnder)" by simp
next
  fix groups
  assume d: "distinct (map ev_id es)"
    and g: "processEventsUnder_loop eventsUnder (setLayOutParams es1 minLeft maxWidth)
                 (eventIdxById_loop (setLayOutParams es1 minLeft maxWidth) 0 Map.empty) [] 0
                 = Inr groups"
  from getEventsUnder_distinct[OF assms d]
  have dt: "distinct (map topEventId eventsUnder)" by simp
  have known: "\<forall>j<length eventsUnder. topEventId (eventsUnder ! j) \<noteq> None"
  proof (intro allI impI)
    fix j assume "j < length eventsUnder"
    then have "eventsUnder ! j \<in> set eventsUnder" by simp
    from getEventsUnder_anchored[OF assms this]
    show "topEventId (eventsUnder ! j) \<noteq> None" by auto
  qed
  have sh0: "groupItems [] = oneEach eventsUnder 0" by (simp add: groupItems_def oneEach_def)
  from processEventsUnder_loop_oneEach_Inr[OF g known dt sh0]
  show sh: "groupItems groups = oneEach eventsUnder (length eventsUnder)" by simp
  from sh have "length (groupItems groups) = length (oneEach eventsUnder (length eventsUnder))"
    by simp
  then show "length groups = length eventsUnder" by (simp add: groupItems_def oneEach_def)
  fix x assume "x \<in> snd ` set groups"
  then obtain key where "(key, x) \<in> set groups" by auto
  then have "(key, items x) \<in> set (groupItems groups)" by (force simp: groupItems_def)
  with sh have "(key, items x) \<in> set (oneEach eventsUnder (length eventsUnder))" by simp
  then show "length (items x) = 1" by (auto simp: oneEach_def)
next
  assume plain: "\<forall>e \<in> set es. \<not> inherited (ev_id e)"
  define es2 where "es2 = setLayOutParams es1 minLeft maxWidth"
  have ids: "map ev_id es2 = map ev_id es1" by (simp add: es2_def)
  from getEventsUnder_primary_ids[OF assms] plain
  have p1: "\<forall>e \<in> set es1. \<not> inherited (ev_id e)" by force
  from processEventsUnder_loop_Inr[OF
         anchorsKnown_getEventsUnder[OF assms ids anchors_plain[OF assms p1]] keysOk_init]
  show "\<exists>groups.
      processEventsUnder_loop eventsUnder (setLayOutParams es1 minLeft maxWidth)
        (eventIdxById_loop (setLayOutParams es1 minLeft maxWidth) 0 Map.empty) [] 0
        = Inr groups" unfolding es2_def .
qed

theorem getEventsUnder_one_per_anchor_witness:
  "map ev_id (fst (getEventsUnder sevenEvents)) = [Num 1, Num 2, Num 3, Num 6]
   \<and> map hasEventUnder (fst (getEventsUnder sevenEvents)) = [False, True, True, True]
   \<and> map ev_id (snd (getEventsUnder sevenEvents)) = [Num 4, Num 5, Num 7]
   \<and> map topEventId (snd (getEventsUnder sevenEvents))
       = [Some (Num 3), Some (Num 2), Some (Num 6)]
   \<and> \<not> isEventsCollides (fst (getEventsUnder sevenEvents) ! 1)
          (snd (getEventsUnder sevenEvents) ! 2)
   \<and> anchorsAt (fst (getEventsUnder sevenEvents)) (snd (getEventsUnder sevenEvents)) [2, 1, 3]
   \<and> length (filter hasEventUnder (fst (getEventsUnder sevenEvents)))
       = length (snd (getEventsUnder sevenEvents))
   \<and> distinct (map topEventId (snd (getEventsUnder sevenEvents)))
   \<and> (\<exists>groups.
        processEventsUnder_loop (snd (getEventsUnder sevenEvents))
          (setLayOutParams (fst (getEventsUnder sevenEvents)) MIN_LEFT MAX_WIDTH)
          (eventIdxById_loop
             (setLayOutParams (fst (getEventsUnder sevenEvents)) MIN_LEFT MAX_WIDTH) 0 Map.empty)
          [] 0 = Inr groups
      \<and> groupItems groups = [(Num 3, [0]), (Num 2, [1]), (Num 6, [2])]
      \<and> length groups = 3
      \<and> list_all (\<lambda>g. length (items g) = 1) (map snd groups))"
proof -
  have g: "getEventsUnder sevenEvents
      = (fst (getEventsUnder sevenEvents), snd (getEventsUnder sevenEvents))" by simp
  have "list_all (\<lambda>e. \<not> hasEventUnder e) sevenEvents" by code_simp
  then have c: "\<forall>e \<in> set sevenEvents. \<not> hasEventUnder e" by (simp add: list_all_iff)
  have d: "distinct (map ev_id sevenEvents)" by code_simp
  have "list_all (\<lambda>e. \<not> inherited (ev_id e)) sevenEvents" by code_simp
  then have n: "\<forall>e \<in> set sevenEvents. \<not> inherited (ev_id e)" by (simp add: list_all_iff)
  have p: "map ev_id (fst (getEventsUnder sevenEvents)) = [Num 1, Num 2, Num 3, Num 6]"
    by code_simp
  have f: "map hasEventUnder (fst (getEventsUnder sevenEvents)) = [False, True, True, True]"
    by code_simp
  have u: "map ev_id (snd (getEventsUnder sevenEvents)) = [Num 4, Num 5, Num 7]" by code_simp
  have t: "map topEventId (snd (getEventsUnder sevenEvents))
       = [Some (Num 3), Some (Num 2), Some (Num 6)]" by code_simp
  have r: "\<not> isEventsCollides (fst (getEventsUnder sevenEvents) ! 1)
          (snd (getEventsUnder sevenEvents) ! 2)" by code_simp
  have a: "anchorsAt (fst (getEventsUnder sevenEvents)) (snd (getEventsUnder sevenEvents))
       [2, 1, 3]" by code_simp
  have o: "oneEach (snd (getEventsUnder sevenEvents)) (length (snd (getEventsUnder sevenEvents)))
       = [(Num 3, [0]), (Num 2, [1]), (Num 6, [2])]" by code_simp
  have l: "length (snd (getEventsUnder sevenEvents)) = 3"
    using u by (metis length_map length_Cons list.size(3) numeral_3_eq_3)
  note th = getEventsUnder_one_per_anchor[OF g, where minLeft = MIN_LEFT and maxWidth = MAX_WIDTH]
  from th c have cnt: "length (filter hasEventUnder (fst (getEventsUnder sevenEvents)))
       = length (snd (getEventsUnder sevenEvents))" by blast
  from th d have dt: "distinct (map topEventId (snd (getEventsUnder sevenEvents)))" by blast
  from th d n obtain groups where
    gr: "processEventsUnder_loop (snd (getEventsUnder sevenEvents))
          (setLayOutParams (fst (getEventsUnder sevenEvents)) MIN_LEFT MAX_WIDTH)
          (eventIdxById_loop
             (setLayOutParams (fst (getEventsUnder sevenEvents)) MIN_LEFT MAX_WIDTH) 0 Map.empty)
          [] 0 = Inr groups" by blast
  with th d have sh: "groupItems groups
       = oneEach (snd (getEventsUnder sevenEvents)) (length (snd (getEventsUnder sevenEvents)))"
    and len: "length groups = length (snd (getEventsUnder sevenEvents))"
    and one: "\<forall>g \<in> snd ` set groups. length (items g) = 1" by blast+
  from one have one': "list_all (\<lambda>g. length (items g) = 1) (map snd groups)"
    by (simp add: list_all_iff)
  from gr sh len one' o l have "\<exists>groups.
        processEventsUnder_loop (snd (getEventsUnder sevenEvents))
          (setLayOutParams (fst (getEventsUnder sevenEvents)) MIN_LEFT MAX_WIDTH)
          (eventIdxById_loop
             (setLayOutParams (fst (getEventsUnder sevenEvents)) MIN_LEFT MAX_WIDTH) 0 Map.empty)
          [] 0 = Inr groups
      \<and> groupItems groups = [(Num 3, [0]), (Num 2, [1]), (Num 6, [2])]
      \<and> length groups = 3
      \<and> list_all (\<lambda>g. length (items g) = 1) (map snd groups)" by auto
  with p f u t r a cnt dt show ?thesis by blast
qed

section \<open>Permuted input\<close>

text \<open>
  Claim C4 says that the layout does not depend on the order of the input array. For two
  events with the same start and the same end \<open>compareStartEndTime\<close> answers 1 whichever
  comes first, so their order after the sort follows their order in the input, and with
  it the column each one gets.
\<close>

theorem layOutDay_depends_on_order:
  "layOutDay (JsArray [Some \<lparr>ev_id = Num 1, ev_start = 0, ev_end = 60\<rparr>,
                       Some \<lparr>ev_id = Num 2, ev_start = 0, ev_end = 60\<rparr>])
     = Inr [\<lparr>ev_id = Num 2, ev_start = 0, ev_end = 60, ev_left = 10, ev_width = 310, ev_top = 0\<rparr>,
            \<lparr>ev_id = Num 1, ev_start = 0, ev_end = 60, ev_left = 320, ev_width = 310, ev_top = 0\<rparr>]
   \<and> layOutDay (JsArray [Some \<lparr>ev_id = Num 2, ev_start = 0, ev_end = 60\<rparr>,
                         Some \<lparr>ev_id = Num 1, ev_start = 0, ev_end = 60\<rparr>])
     = Inr [\<lparr>ev_id = Num 1, ev_start = 0, ev_end = 60, ev_left = 10, ev_width = 310, ev_top = 0\<rparr>,
            \<lparr>ev_id = Num 2, ev_start = 0, ev_end = 60, ev_left = 320, ev_width = 310, ev_top = 0\<rparr>]
   \<and> \<lparr>ev_id = Num 1, ev_start = 0, ev_end = 60, ev_left = 320, ev_width = 310, ev_top = 0\<rparr>
       \<notin> set [\<lparr>ev_id = Num 1, ev_start = 0, ev_end = 60, ev_left = 10, ev_width = 310, ev_top = 0\<rparr>,
               \<lparr>ev_id = Num 2, ev_start = 0, ev_end = 60, ev_left = 320, ev_width = 310, ev_top = 0\<rparr>]"
proof -
  have a: "layOutDay (JsArray [Some \<lparr>ev_id = Num 1, ev_start = 0, ev_end = 60\<rparr>,
                       Some \<lparr>ev_id = Num 2, ev_start = 0, ev_end = 60\<rparr>])
     = Inr [\<lparr>ev_id = Num 2, ev_start = 0, ev_end = 60, ev_left = 10, ev_width = 310, ev_top = 0\<rparr>,
            \<lparr>ev_id = Num 1, ev_start = 0, ev_end = 60, ev_left = 320, ev_width = 310, ev_top = 0\<rparr>]"
    by code_simp
  have b: "layOutDay (JsArray [Some \<lparr>ev_id = Num 2, ev_start = 0, ev_end = 60\<rparr>,
                         Some \<lparr>ev_id = Num 1, ev_start = 0, ev_end = 60\<rparr>])
     = Inr [\<lparr>ev_id = Num 1, ev_start = 0, ev_end = 60, ev_left = 10, ev_width = 310, ev_top = 0\<rparr>,
            \<lparr>ev_id = Num 2, ev_start = 0, ev_end = 60, ev_left = 320, ev_width = 310, ev_top = 0\<rparr>]"
    by code_simp
  from a b show ?thesis by simp
qed

text \<open>
  Claim C4, amended. When no two events of the array have the same start and the same
  end, \<open>layOutDay\<close> returns the same records for every permutation of the array.
\<close>

theorem layOutDay_permutation:
  assumes "mset xs = mset ys" and "distinct (map (\<lambda>e. (ev_start e, ev_end e)) xs)"
  shows "layOutDay (JsArray (map Some xs)) = layOutDay (JsArray (map Some ys))"
proof -
  have k: "map sortKey (map cloneOf xs) = map (\<lambda>(a, b). (a, - b)) (map (\<lambda>e. (ev_start e, ev_end e)) xs)"
    by (simp add: sortKey_def)
  have "inj (\<lambda>(a::int, b::int). (a, - b))" by (auto simp: inj_on_def)
  then have "inj_on (\<lambda>(a::int, b::int). (a, - b)) (set (map (\<lambda>e. (ev_start e, ev_end e)) xs))"
    by (rule inj_on_subset) simp
  with assms(2) have d: "distinct (map sortKey (map cloneOf xs))"
    unfolding k by (simp only: distinct_map)
  from assms(1) have m: "mset (map cloneOf xs) = mset (map cloneOf ys)" by simp
  have "sortEvents (map cloneOf xs) = sortEvents (map cloneOf ys)"
    by (rule sortEvents_unique[OF m d])
  then have "primaryAndUnder (map Some xs) = primaryAndUnder (map Some ys)"
    by (simp add: primaryAndUnder_def cloneEvents_loop_eq)
  then show ?thesis by (simp add: layOutDay_array_eq cong: sum.case_cong)
qed

theorem layOutDay_permutation_witness:
  "mset [\<lparr>ev_id = Num 1, ev_start = 0, ev_end = 60\<rparr>, \<lparr>ev_id = Num 2, ev_start = 30, ev_end = 90\<rparr>]
     = mset [\<lparr>ev_id = Num 2, ev_start = 30, ev_end = 90\<rparr>, \<lparr>ev_id = Num 1, ev_start = 0, ev_end = 60\<rparr>]
   \<and> distinct (map (\<lambda>e. (ev_start e, ev_end e))
        [\<lparr>ev_id = Num 1, ev_start = 0, ev_end = 60\<rparr>, \<lparr>ev_id = Num 2, ev_start = 30, ev_end = 90\<rparr>])
   \<and> layOutDay (JsArray (map Some
        [\<lparr>ev_id = Num 1, ev_start = 0, ev_end = 60\<rparr>, \<lparr>ev_id = Num 2, ev_start = 30, ev_end = 90\<rparr>]))
     = layOutDay (JsArray (map Some
        [\<lparr>ev_id = Num 2, ev_start = 30, ev_end = 90\<rparr>, \<lparr>ev_id = Num 1, ev_start = 0, ev_end = 60\<rparr>]))"
proof -
  have m: "mset [\<lparr>ev_id = Num 1, ev_start = 0, ev_end = 60\<rparr>, \<lparr>ev_id = Num 2, ev_start = 30, ev_end = 90\<rparr>]
     = mset [\<lparr>ev_id = Num 2, ev_start = 30, ev_end = 90\<rparr>, \<lparr>ev_id = Num 1, ev_start = 0, ev_end = 60\<rparr>]"
    by (simp add: add_mset_commute)
  have d: "distinct (map (\<lambda>e. (ev_start e, ev_end e))
        [\<lparr>ev_id = Num 1, ev_start = 0, ev_end = 60\<rparr>, \<lparr>ev_id = Num 2, ev_start = 30, ev_end = 90\<rparr>])"
    by simp
  from layOutDay_permutation[OF m d] m d show ?thesis by blast
qed

section \<open>What layOutDay writes in the store\<close>

subsection \<open>What a step may write\<close>

lemma writesOnly_refl [simp]: "writesOnly R C s s"
  by (simp add: writesOnly_def)

lemma writesOnly_trans:
  "writesOnly R C s s1 \<Longrightarrow> writesOnly R C s1 s2 \<Longrightarrow> writesOnly R C s s2"
  by (simp add: writesOnly_def)

lemma writesOnly_setObj: "r \<in> R \<Longrightarrow> writesOnly R C s (setObj s r f)"
  by (auto simp: writesOnly_def setObj_def)

lemma writesOnly_setArr: "c \<in> C \<Longrightarrow> writesOnly R C s (setArr s c xs)"
  by (auto simp: writesOnly_def setArr_def)

lemma objs_setArr [simp]: "objs (setArr s c xs) = objs s"
  by (simp add: setArr_def)

lemma arrs_setArr_same [simp]: "arrs (setArr s c xs) c = xs"
  by (simp add: setArr_def)

subsection \<open>The steps that write objects only\<close>

lemma writesOnly_updateCollisions_h_reset:
  "set refs \<subseteq> R \<Longrightarrow> writesOnly R C s (updateCollisions_h_reset s refs)"
proof (induction s refs rule: updateCollisions_h_reset.induct)
  case (1 s)
  then show ?case by simp
next
  case (2 s r rest)
  from "2.prems" have "writesOnly R C s (setObj s r (\<lambda>e. e\<lparr>collisions := []\<rparr>))"
    by (intro writesOnly_setObj) simp
  moreover from "2.prems" "2.IH" have
    "writesOnly R C (setObj s r (\<lambda>e. e\<lparr>collisions := []\<rparr>))
       (updateCollisions_h_reset (setObj s r (\<lambda>e. e\<lparr>collisions := []\<rparr>)) rest)" by simp
  ultimately show ?case by (simp add: writesOnly_trans)
qed

lemma writesOnly_updateCollisions_h_inner:
  "set refs \<subseteq> R \<Longrightarrow> i < length refs \<Longrightarrow>
   writesOnly R C s (updateCollisions_h_inner s refs i j)"
proof (induction s refs i j rule: updateCollisions_h_inner.induct)
  case (1 s refs i j)
  show ?case
  proof (cases "j < length refs")
    case False
    then show ?thesis by (subst updateCollisions_h_inner.simps) simp
  next
    case True
    define s' where "s' = (if isEventsCollides (objs s (refs ! i)) (objs s (refs ! j))
              then setObj (setObj s (refs ! i) (pushCollision j)) (refs ! j) (pushCollision i)
              else s)"
    from "1.prems" True have "refs ! i \<in> R" "refs ! j \<in> R" by auto
    then have a: "writesOnly R C s s'"
      unfolding s'_def
      by (auto intro: writesOnly_trans[OF writesOnly_setObj writesOnly_setObj])
    have "writesOnly R C s' (updateCollisions_h_inner s' refs i (j + 1))"
      unfolding s'_def by (rule "1.IH"[OF True "1.prems"])
    with a have "writesOnly R C s (updateCollisions_h_inner s' refs i (j + 1))"
      by (rule writesOnly_trans)
    moreover have "updateCollisions_h_inner s refs i j = updateCollisions_h_inner s' refs i (j + 1)"
      unfolding s'_def using True by (subst updateCollisions_h_inner.simps) simp
    ultimately show ?thesis by simp
  qed
qed

lemma writesOnly_updateCollisions_h_outer:
  "set refs \<subseteq> R \<Longrightarrow> writesOnly R C s (updateCollisions_h_outer s refs i)"
proof (induction s refs i rule: updateCollisions_h_outer.induct)
  case (1 s refs i)
  show ?case
  proof (cases "i < length refs - 1")
    case False
    then show ?thesis by (subst updateCollisions_h_outer.simps) simp
  next
    case True
    then have "i < length refs" by simp
    from writesOnly_updateCollisions_h_inner[OF "1.prems" this]
    have "writesOnly R C s (updateCollisions_h_inner s refs i (i + 1))" .
    moreover have "writesOnly R C (updateCollisions_h_inner s refs i (i + 1))
        (updateCollisions_h_outer (updateCollisions_h_inner s refs i (i + 1)) refs (i + 1))"
      by (rule "1.IH"[OF True "1.prems"])
    ultimately have "writesOnly R C s
        (updateCollisions_h_outer (updateCollisions_h_inner s refs i (i + 1)) refs (i + 1))"
      by (rule writesOnly_trans)
    then show ?thesis using True by (subst updateCollisions_h_outer.simps) simp
  qed
qed

lemma writesOnly_updateCollisions_h:
  "set refs \<subseteq> R \<Longrightarrow> writesOnly R C s (updateCollisions_h s refs)"
  unfolding updateCollisions_h_def
  by (rule writesOnly_trans[OF writesOnly_updateCollisions_h_reset
        writesOnly_updateCollisions_h_outer])

lemma arrs_setLayOutParams_h_inner [simp]:
  "arrs (fst (setLayOutParams_h_inner s refs minLeft width start i left k)) = arrs s"
  by (induction s refs minLeft width start i left k rule: setLayOutParams_h_inner.induct)
     (subst setLayOutParams_h_inner.simps, simp add: Let_def)

lemma writesOnly_setLayOutParams_h_inner:
  "set refs \<subseteq> R \<Longrightarrow> i \<le> length refs \<Longrightarrow>
   writesOnly R C s (fst (setLayOutParams_h_inner s refs minLeft width start i left k))"
proof (induction s refs minLeft width start i left k rule: setLayOutParams_h_inner.induct)
  case (1 s refs minLeft width start i left k)
  show ?case
  proof (cases "k < i")
    case False
    then show ?thesis by (subst setLayOutParams_h_inner.simps) simp
  next
    case True
    define left1 where "left1 = (if k = start \<and> left > ev_left (objs s (refs ! start))
                         then ev_left (objs s (refs ! start)) else left)"
    define s1 where "s1 = setObj s (refs ! k) (\<lambda>e. e\<lparr>ev_width := width\<rparr>)"
    define s2 where "s2 = setObj s1 (refs ! k) (\<lambda>e. e\<lparr>ev_left := max left1 minLeft\<rparr>)"
    have eq: "setLayOutParams_h_inner s refs minLeft width start i left k
        = setLayOutParams_h_inner s2 refs minLeft width start i
                 (left1 + ev_width (objs s2 (refs ! k))) (k + 1)"
      using True
      by (subst setLayOutParams_h_inner.simps) (simp add: Let_def s2_def s1_def left1_def)
    from "1.prems" True have "refs ! k \<in> R" by auto
    then have "writesOnly R C s s2" unfolding s2_def s1_def
      by (intro writesOnly_trans[OF writesOnly_setObj writesOnly_setObj])
    moreover have "writesOnly R C s2
        (fst (setLayOutParams_h_inner s2 refs minLeft width start i
                 (left1 + ev_width (objs s2 (refs ! k))) (k + 1)))"
      by (rule "1.IH"[OF True left1_def s1_def s2_def "1.prems"])
    ultimately show ?thesis unfolding eq by (rule writesOnly_trans)
  qed
qed

lemma setLayOutParams_h_loop_unfold:
  "setLayOutParams_h_loop s refs minLeft maxWidth start i =
     (if i < length refs
      then (if getLeftCollisionsCount (collisions (objs s (refs ! i))) i = 0
            then setLayOutParams_h_loop
                   (setObj s (refs ! i) (\<lambda>e. e\<lparr>ev_left := minLeft, ev_width := maxWidth\<rparr>))
                   refs minLeft maxWidth i (i + 1)
            else (let r = setLayOutParams_h_inner s refs minLeft
                            (divShl0 maxWidth (int i - int start + 1)) start i
                            (ev_left (objs s (refs ! (collisions (objs s (refs ! i)) ! 0)))) start
                  in setLayOutParams_h_loop
                       (setObj (fst r) (refs ! i) (\<lambda>e. e\<lparr>ev_left := snd r,
                           ev_width := divShl0 maxWidth (int i - int start + 1)\<rparr>))
                       refs minLeft maxWidth start (i + 1)))
      else s)"
  by (subst setLayOutParams_h_loop.simps) (simp add: Let_def split: prod.split)

lemma writesOnly_setLayOutParams_h_loop:
  "set refs \<subseteq> R \<Longrightarrow> writesOnly R C s (setLayOutParams_h_loop s refs minLeft maxWidth start i)"
proof (induction s refs minLeft maxWidth start i rule: setLayOutParams_h_loop.induct)
  case (1 s refs minLeft maxWidth start i)
  show ?case
  proof (cases "i < length refs")
    case False
    then show ?thesis by (subst setLayOutParams_h_loop_unfold) simp
  next
    case lt: True
    with "1.prems" have ri: "refs ! i \<in> R" by auto
    show ?thesis
    proof (cases "getLeftCollisionsCount (collisions (objs s (refs ! i))) i = 0")
      case True
      define s' where "s' = setObj s (refs ! i) (\<lambda>e. e\<lparr>ev_left := minLeft, ev_width := maxWidth\<rparr>)"
      have "writesOnly R C s s'" unfolding s'_def using ri by (rule writesOnly_setObj)
      moreover have "writesOnly R C s' (setLayOutParams_h_loop s' refs minLeft maxWidth i (i + 1))"
        unfolding s'_def by (rule "1.IH"(1)[OF lt True "1.prems"])
      ultimately have "writesOnly R C s (setLayOutParams_h_loop s' refs minLeft maxWidth i (i + 1))"
        by (rule writesOnly_trans)
      then show ?thesis using lt True unfolding s'_def
        by (subst setLayOutParams_h_loop_unfold) simp
    next
      case False
      define width where "width = divShl0 maxWidth (int i - int start + 1)"
      define left where "left = ev_left (objs s (refs ! (collisions (objs s (refs ! i)) ! 0)))"
      define r where "r = setLayOutParams_h_inner s refs minLeft width start i left start"
      define s' where "s' = setObj (fst r) (refs ! i) (\<lambda>e. e\<lparr>ev_left := snd r, ev_width := width\<rparr>)"
      have eq: "setLayOutParams_h_loop s refs minLeft maxWidth start i
          = setLayOutParams_h_loop s' refs minLeft maxWidth start (i + 1)"
        using lt False unfolding s'_def r_def width_def left_def
        by (subst setLayOutParams_h_loop_unfold) (simp add: Let_def)
      from lt have "i \<le> length refs" by simp
      from writesOnly_setLayOutParams_h_inner[OF "1.prems" this]
      have "writesOnly R C s (fst r)" unfolding r_def .
      moreover have "writesOnly R C (fst r) s'" unfolding s'_def using ri by (rule writesOnly_setObj)
      ultimately have a: "writesOnly R C s s'" by (rule writesOnly_trans)
      have "writesOnly R C s' (setLayOutParams_h_loop s' refs minLeft maxWidth start (i + 1))"
        using "1.IH"(2)[OF lt False left_def width_def, of "fst r" "snd r"] "1.prems"
        unfolding s'_def r_def by simp
      with a show ?thesis unfolding eq by (rule writesOnly_trans)
    qed
  qed
qed

lemma writesOnly_setLayOutParams_h:
  "set refs \<subseteq> R \<Longrightarrow> writesOnly R C s (setLayOutParams_h s refs minLeft maxWidth)"
  unfolding setLayOutParams_h_def by (rule writesOnly_setLayOutParams_h_loop)

subsection \<open>The steps that write the array\<close>

lemma set_insertFromRight_h [simp]:
  "set (insertFromRight_h s x pre) = insert x (set pre)"
  by (induction s x pre rule: insertFromRight_h.induct) auto

lemma set_foldl_insertFromRight_h:
  "set (foldl (\<lambda>prefix element. insertFromRight_h s element prefix) acc refs)
     = set acc \<union> set refs"
  by (induction refs arbitrary: acc) auto

lemma sortEvents_h_frame:
  assumes "c \<in> C"
  shows "writesOnly R C s (sortEvents_h s c)"
    and "set (arrs (sortEvents_h s c) c) = set (arrs s c)"
  using assms
  by (simp_all add: sortEvents_h_def writesOnly_setArr set_foldl_insertFromRight_h)

lemma set_splice1: "set (splice1 xs i) \<subseteq> set xs"
  unfolding splice1_def using set_take_subset[of i xs] set_drop_subset[of "Suc i" xs] by auto

lemma getEventsUnder_h_loop_frame:
  assumes "c \<in> C" "set (arrs s c) \<subseteq> R" "set eventsUnder \<subseteq> R"
  shows "writesOnly R C s (fst (getEventsUnder_h_loop s c eventsUnder start i))
       \<and> set (arrs (fst (getEventsUnder_h_loop s c eventsUnder start i)) c) \<subseteq> R
       \<and> set (snd (getEventsUnder_h_loop s c eventsUnder start i)) \<subseteq> R"
  using assms
proof (induction s c eventsUnder start i rule: getEventsUnder_h_loop.induct)
  case (1 s c eventsUnder start i)
  show ?case
  proof (cases "i < length (arrs s c)")
    case False
    with "1.prems" show ?thesis by (subst (1 2 3) getEventsUnder_h_loop.simps) simp
  next
    case lt: True
    show ?thesis
    proof (cases "getLeftCollisionsCount (collisions (objs s (arrs s c ! i))) i \<noteq> 0")
      case False
      then have eq: "getEventsUnder_h_loop s c eventsUnder start i
                   = getEventsUnder_h_loop s c eventsUnder i (i + 1)"
        using lt by (subst getEventsUnder_h_loop.simps) simp
      from "1.IH"(3)[OF lt _ "1.prems"] False show ?thesis unfolding eq by simp
    next
      case nz: True
      show ?thesis
      proof (cases "getEventsUnder_inner (load s (arrs s c)) i start")
        case None
        then have eq: "getEventsUnder_h_loop s c eventsUnder start i
                     = getEventsUnder_h_loop s c eventsUnder start (i + 1)"
          using lt nz by (subst getEventsUnder_h_loop.simps) simp
        from "1.IH"(1)[OF lt nz None "1.prems"] show ?thesis unfolding eq .
      next
        case (Some j)
        define temp where "temp = arrs s c ! i"
        define leftEvent where "leftEvent = arrs s c ! j"
        define s1 where "s1 = setArr s c (splice1 (arrs s c) i)"
        define s2 where "s2 = setObj s1 temp (\<lambda>e. e\<lparr>topEventId := Some (ev_id (objs s1 leftEvent))\<rparr>)"
        define s3 where "s3 = setObj s2 leftEvent (\<lambda>e. e\<lparr>hasEventUnder := True\<rparr>)"
        define s4 where "s4 = updateCollisions_h s3 (arrs s3 c)"
        have eq: "getEventsUnder_h_loop s c eventsUnder start i
                     = getEventsUnder_h_loop s4 c (eventsUnder @ [temp]) start i"
          using lt nz Some unfolding s4_def s3_def s2_def s1_def leftEvent_def temp_def
          by (subst getEventsUnder_h_loop.simps) (simp add: Let_def)
        from getEventsUnder_inner_Some[OF Some] have "j < i" by simp
        with lt "1.prems"(2) have lR: "leftEvent \<in> R" and tR: "temp \<in> R"
          unfolding leftEvent_def temp_def by auto
        have a1: "arrs s1 c = splice1 (arrs s c) i" by (simp add: s1_def)
        have a3: "arrs s3 c = splice1 (arrs s c) i" by (simp add: s3_def s2_def a1)
        have a4: "arrs s4 c = splice1 (arrs s c) i" by (simp add: s4_def a3)
        from set_splice1[of "arrs s c" i] "1.prems"(2) have sub: "set (splice1 (arrs s c) i) \<subseteq> R"
          by blast
        have w1: "writesOnly R C s s1" unfolding s1_def using "1.prems"(1) by (rule writesOnly_setArr)
        have w2: "writesOnly R C s1 s2" unfolding s2_def using tR by (rule writesOnly_setObj)
        have w3: "writesOnly R C s2 s3" unfolding s3_def using lR by (rule writesOnly_setObj)
        have w4: "writesOnly R C s3 s4" unfolding s4_def
          by (rule writesOnly_updateCollisions_h) (simp add: a3 sub)
        from w1 w2 w3 w4 have w: "writesOnly R C s s4" by (blast intro: writesOnly_trans)
        have p2: "set (arrs s4 c) \<subseteq> R" by (simp add: a4 sub)
        have p3: "set (eventsUnder @ [temp]) \<subseteq> R" using "1.prems"(3) tR by simp
        have "writesOnly R C s4 (fst (getEventsUnder_h_loop s4 c (eventsUnder @ [temp]) start i))
            \<and> set (arrs (fst (getEventsUnder_h_loop s4 c (eventsUnder @ [temp]) start i)) c) \<subseteq> R
            \<and> set (snd (getEventsUnder_h_loop s4 c (eventsUnder @ [temp]) start i)) \<subseteq> R"
          using "1.IH"(2)[OF lt nz Some temp_def leftEvent_def s1_def s2_def s3_def s4_def
                  "1.prems"(1) p2 p3] .
        with w show ?thesis unfolding eq by (blast intro: writesOnly_trans)
      qed
    qed
  qed
qed

lemma getEventsUnder_h_frame:
  assumes "c \<in> C" "set (arrs s c) \<subseteq> R"
  shows "writesOnly R C s (fst (getEventsUnder_h s c))
       \<and> set (arrs (fst (getEventsUnder_h s c)) c) \<subseteq> R
       \<and> set (snd (getEventsUnder_h s c)) \<subseteq> R"
proof -
  define r where "r = getEventsUnder_h_loop s c [] 0 0"
  from getEventsUnder_h_loop_frame[OF assms, of "[]" 0 0]
  have l: "writesOnly R C s (fst r)" "set (arrs (fst r) c) \<subseteq> R" "set (snd r) \<subseteq> R"
    by (simp_all add: r_def)
  have g: "getEventsUnder_h s c
      = (if snd r \<noteq> [] then updateCollisions_h (fst r) (snd r) else fst r, snd r)"
    by (simp add: getEventsUnder_h_def r_def split: prod.split)
  from l(3) have "writesOnly R C (fst r) (updateCollisions_h (fst r) (snd r))"
    by (rule writesOnly_updateCollisions_h)
  with l show ?thesis unfolding g by (auto intro: writesOnly_trans)
qed

subsection \<open>The items of the groups\<close>

lemma snd_set_updateGroup:
  "snd ` set (updateGroup t f gs) \<subseteq> snd ` set gs \<union> f ` snd ` set gs"
  by (induction t f gs rule: updateGroup.induct) auto

lemma itemsBelow_updateGroup:
  assumes "itemsBelow n gs" "\<forall>g. set (items (f g)) \<subseteq> set (items g) \<union> {k. k < n}"
  shows "itemsBelow n (updateGroup t f gs)"
  unfolding itemsBelow_def
proof (intro ballI)
  fix g k assume g: "g \<in> snd ` set (updateGroup t f gs)" and k: "k \<in> set (items g)"
  from g snd_set_updateGroup[of t f gs] consider "g \<in> snd ` set gs"
    | g0 where "g0 \<in> snd ` set gs" "g = f g0" by blast
  then show "k < n"
  proof cases
    case 1
    with assms(1) k show ?thesis unfolding itemsBelow_def by blast
  next
    case 2
    with assms(2) k have "k \<in> set (items g0) \<or> k < n" by blast
    with 2 assms(1) show ?thesis unfolding itemsBelow_def by blast
  qed
qed

lemma itemsBelow_joinGroup:
  assumes "itemsBelow n groups" "i < n"
  shows "itemsBelow n (joinGroup es groups t k i)"
proof -
  have "itemsBelow n (if map_of groups t = None
        then groups @ [(t, \<lparr>items = [], g_left = ev_left (es ! k), g_width = ev_width (es ! k)\<rparr>)]
        else groups)"
    using assms(1) by (auto simp: itemsBelow_def)
  then show ?thesis unfolding joinGroup_def
    by (rule itemsBelow_updateGroup) (use assms(2) in auto)
qed

lemma processEventsUnder_loop_itemsBelow:
  assumes "itemsBelow (length eventsUnder) groups"
    and "processEventsUnder_loop eventsUnder es eventIdxById groups i = Inr groups'"
  shows "itemsBelow (length eventsUnder) groups'"
  using assms
proof (induction eventsUnder es eventIdxById groups i rule: processEventsUnder_loop.induct)
  case (1 eventsUnder es eventIdxById groups i)
  show ?case
  proof (cases "i < length eventsUnder")
    case False
    with "1.prems" show ?thesis by (subst (asm) processEventsUnder_loop.simps) simp
  next
    case True
    from "1.prems"(2) True obtain g1 where
      st: "processEventsUnder_step eventsUnder es eventIdxById groups i = Inr g1"
      and rest: "processEventsUnder_loop eventsUnder es eventIdxById g1 (i + 1) = Inr groups'"
      by (subst (asm) processEventsUnder_loop.simps) (auto split: sum.splits)
    from processEventsUnder_step_Inr[OF st] obtain t k f where
      g1: "g1 = updateGroup t f (joinGroup es groups t k i)" and f: "\<forall>g. items (f g) = items g"
      by blast
    have "itemsBelow (length eventsUnder) g1" unfolding g1
      by (rule itemsBelow_updateGroup[OF itemsBelow_joinGroup[OF "1.prems"(1) True]])
         (use f in auto)
    from "1.IH"[OF True st this rest] show ?thesis .
  qed
qed

lemma writesOnly_layOutGroups_h:
  assumes "set eventsUnder \<subseteq> R" "itemsBelow (length eventsUnder) groups"
  shows "writesOnly R C s (layOutGroups_h groups eventsUnder s)"
  using assms
proof (induction groups eventsUnder s rule: layOutGroups_h.induct)
  case (1 eventsUnder s)
  then show ?case by simp
next
  case (2 key g rest eventsUnder s)
  from "2.prems"(2) have below: "\<forall>k \<in> set (items g). k < length eventsUnder"
    and r: "itemsBelow (length eventsUnder) rest" by (auto simp: itemsBelow_def)
  from below "2.prems"(1) have "set (map (\<lambda>k. eventsUnder ! k) (items g)) \<subseteq> R" by auto
  then have "writesOnly R C s
      (setLayOutParams_h s (map (\<lambda>k. eventsUnder ! k) (items g)) (g_left g) (g_width g))"
    by (rule writesOnly_setLayOutParams_h)
  moreover have "writesOnly R C
      (setLayOutParams_h s (map (\<lambda>k. eventsUnder ! k) (items g)) (g_left g) (g_width g))
      (layOutGroups_h rest eventsUnder
        (setLayOutParams_h s (map (\<lambda>k. eventsUnder ! k) (items g)) (g_left g) (g_width g)))"
    by (rule "2.IH"[OF "2.prems"(1) r])
  ultimately show ?case by (simp add: writesOnly_trans)
qed

lemma processEventsUnder_h_frame:
  assumes "set eventsUnder \<subseteq> R" "processEventsUnder_h s eventsUnder es = Inr s'"
  shows "writesOnly R C s s'"
proof -
  from assms(2) obtain groups where
    g: "processEventsUnder_loop (load s eventsUnder) (load s es)
             (eventIdxById_loop (load s es) 0 Map.empty) [] 0 = Inr groups"
    and s': "s' = layOutGroups_h groups eventsUnder s"
    by (auto simp: processEventsUnder_h_def split: sum.splits)
  have "itemsBelow (length (load s eventsUnder)) []" by (simp add: itemsBelow_def)
  from processEventsUnder_loop_itemsBelow[OF this g]
  have "itemsBelow (length eventsUnder) groups" by (simp add: load_def)
  from writesOnly_layOutGroups_h[OF assms(1) this] s' show ?thesis by simp
qed

subsection \<open>The clones are new objects\<close>

lemma cloneEvents_h_loop_frame:
  assumes "n \<le> nextObj s" "set clonedEvents \<subseteq> {r. n \<le> r}"
  shows "writesOnly {r. n \<le> r} C s (fst (cloneEvents_h_loop s refs clonedEvents))
       \<and> set (snd (cloneEvents_h_loop s refs clonedEvents)) \<subseteq> {r. n \<le> r}
       \<and> nextArr (fst (cloneEvents_h_loop s refs clonedEvents)) = nextArr s"
  using assms
proof (induction s refs clonedEvents rule: cloneEvents_h_loop.induct)
  case (1 s clonedEvents)
  then show ?case by simp
next
  case (2 s r rest clonedEvents)
  define v where "v = \<lparr>ev_id = ev_id (objs s r), ev_start = ev_start (objs s r),
         ev_end = ev_end (objs s r), ev_left = 0, ev_width = 0,
         collisions = [], hasEventUnder = False, topEventId = None\<rparr>"
  define s1 where "s1 = fst (newObject s v)"
  define r1 where "r1 = snd (newObject s v)"
  have eq: "cloneEvents_h_loop s (r # rest) clonedEvents
      = cloneEvents_h_loop s1 rest (clonedEvents @ [r1])"
    by (simp add: s1_def r1_def v_def split: prod.split)
  have r1: "r1 = nextObj s" and n1: "nextObj s1 = nextObj s + 1" and a1: "nextArr s1 = nextArr s"
    by (simp_all add: r1_def s1_def newObject_def)
  have w1: "writesOnly {r. n \<le> r} C s s1"
    using "2.prems"(1) by (auto simp: writesOnly_def s1_def newObject_def)
  have p1: "n \<le> nextObj s1" using "2.prems"(1) n1 by simp
  have p2: "set (clonedEvents @ [r1]) \<subseteq> {r. n \<le> r}" using "2.prems" r1 by auto
  have "writesOnly {r. n \<le> r} C s1 (fst (cloneEvents_h_loop s1 rest (clonedEvents @ [r1])))
       \<and> set (snd (cloneEvents_h_loop s1 rest (clonedEvents @ [r1]))) \<subseteq> {r. n \<le> r}
       \<and> nextArr (fst (cloneEvents_h_loop s1 rest (clonedEvents @ [r1]))) = nextArr s1"
    using "2.IH"[of "fst (newObject s v)" "snd (newObject s v)", OF _ _ _]
      p1 p2 unfolding s1_def r1_def v_def by simp
  with w1 a1 show ?case unfolding eq by (auto intro: writesOnly_trans)
qed

lemma cloneEvents_h_frame:
  "writesOnly {r. nextObj s \<le> r} {c. nextArr s \<le> c} s (fst (cloneEvents_h s a))
   \<and> nextArr s \<le> snd (cloneEvents_h s a)
   \<and> set (arrs (fst (cloneEvents_h s a)) (snd (cloneEvents_h s a))) \<subseteq> {r. nextObj s \<le> r}"
proof -
  define l where "l = cloneEvents_h_loop s (arrs s a) []"
  from cloneEvents_h_loop_frame[of "nextObj s" s "[]" "{c. nextArr s \<le> c}" "arrs s a"]
  have w: "writesOnly {r. nextObj s \<le> r} {c. nextArr s \<le> c} s (fst l)"
    and f: "set (snd l) \<subseteq> {r. nextObj s \<le> r}" and n: "nextArr (fst l) = nextArr s"
    by (simp_all add: l_def)
  have c: "cloneEvents_h s a = newArray (fst l) (snd l)"
    by (simp add: cloneEvents_h_def l_def split: prod.split)
  have "writesOnly {r. nextObj s \<le> r} {c. nextArr s \<le> c} (fst l) (fst (newArray (fst l) (snd l)))"
    using n by (auto simp: writesOnly_def newArray_def)
  with w have "writesOnly {r. nextObj s \<le> r} {c. nextArr s \<le> c} s (fst (newArray (fst l) (snd l)))"
    by (rule writesOnly_trans)
  moreover have "snd (newArray (fst l) (snd l)) = nextArr s" by (simp add: newArray_def n)
  moreover have "arrs (fst (newArray (fst l) (snd l))) (nextArr s) = snd l"
    by (simp add: newArray_def n)
  ultimately show ?thesis unfolding c using f by simp
qed

subsection \<open>The caller's array and events\<close>

text \<open>\<open>layOutDay\<close> writes no object and no array that was in the store when it was
  called.\<close>

lemma layOutDay_h_writesOnly:
  "writesOnly {r. nextObj s \<le> r} {c. nextArr s \<le> c} s (fst (layOutDay_h s arg))"
proof (cases arg)
  case NotArrayRef
  then show ?thesis by (simp add: layOutDay_h_def)
next
  case (ArrayRef a)
  let ?R = "{r. nextObj s \<le> r}" and ?C = "{c. nextArr s \<le> c}"
  define s1 where "s1 = fst (cloneEvents_h s a)"
  define c where "c = snd (cloneEvents_h s a)"
  define s2 where "s2 = sortEvents_h s1 c"
  define s3 where "s3 = updateCollisions_h s2 (arrs s2 c)"
  define s4 where "s4 = fst (getEventsUnder_h s3 c)"
  define u where "u = snd (getEventsUnder_h s3 c)"
  define s5 where "s5 = setLayOutParams_h s4 (arrs s4 c) MIN_LEFT MAX_WIDTH"
  from cloneEvents_h_frame[of s a] have w1: "writesOnly ?R ?C s s1" and cC: "c \<in> ?C"
    and f1: "set (arrs s1 c) \<subseteq> ?R" by (simp_all add: s1_def c_def)
  from sortEvents_h_frame(1)[where R = ?R and s = s1, OF cC]
  have w2: "writesOnly ?R ?C s1 s2" by (simp add: s2_def)
  from sortEvents_h_frame(2)[where s = s1, OF cC] f1
  have f2: "set (arrs s2 c) \<subseteq> ?R" by (simp add: s2_def)
  from writesOnly_updateCollisions_h[OF f2] have w3: "writesOnly ?R ?C s2 s3"
    by (simp add: s3_def)
  have f3: "set (arrs s3 c) \<subseteq> ?R" using f2 by (simp add: s3_def)
  from getEventsUnder_h_frame[OF cC f3] have w4: "writesOnly ?R ?C s3 s4"
    and f4: "set (arrs s4 c) \<subseteq> ?R" and fu: "set u \<subseteq> ?R" by (simp_all add: s4_def u_def)
  from writesOnly_setLayOutParams_h[OF f4] have w5: "writesOnly ?R ?C s4 s5"
    by (simp add: s5_def)
  from w1 w2 w3 w4 w5 have w: "writesOnly ?R ?C s s5" by (blast intro: writesOnly_trans)
  have l: "layOutDay_h s arg =
     (case processEventsUnder_h s5 u (arrs s5 c) of
        Inl err \<Rightarrow> (s5, Inl err)
      | Inr s6 \<Rightarrow> (s6, Inr (normalizeEvents (load s6 (arrs s6 c @ u)))))"
    unfolding ArrayRef layOutDay_h_def s5_def u_def s4_def s3_def s2_def c_def s1_def Let_def
    by (simp add: case_prod_unfold)
  show ?thesis
  proof (cases "processEventsUnder_h s5 u (arrs s5 c)")
    case (Inl err)
    with l w show ?thesis by simp
  next
    case (Inr s6)
    from processEventsUnder_h_frame[OF fu Inr] have "writesOnly ?R ?C s5 s6" .
    with w have "writesOnly ?R ?C s s6" by (rule writesOnly_trans)
    with l Inr show ?thesis by simp
  qed
qed

text \<open>
  When the call on the store raises, the store is left as the caller had it: every
  object and every array that was in use at the call is unchanged, and the result is the
  error alone.
\<close>

lemma layOutDay_h_raise_frame:
  assumes "snd (layOutDay_h s arg) = Inl err"
  shows "(\<forall>r<nextObj s. objs (fst (layOutDay_h s arg)) r = objs s r)
       \<and> (\<forall>c<nextArr s. arrs (fst (layOutDay_h s arg)) c = arrs s c)"
  using layOutDay_h_writesOnly[of s arg] by (simp add: writesOnly_def)

text \<open>
  Claim C8. When \<open>layOutDay\<close> is called on an array of the store whose address and whose
  events' addresses are in use, the array holds the same elements after the call and
  every event it refers to has the same fields as before, \<open>id\<close>, \<open>start\<close> and \<open>end\<close> among
  them.
\<close>

theorem layOutDay_h_input_unchanged:
  assumes "a < nextArr s" and "\<forall>r \<in> set (arrs s a). r < nextObj s"
  shows "arrs (fst (layOutDay_h s (ArrayRef a))) a = arrs s a
       \<and> length (arrs (fst (layOutDay_h s (ArrayRef a))) a) = length (arrs s a)
       \<and> (\<forall>r \<in> set (arrs s a). objs (fst (layOutDay_h s (ArrayRef a))) r = objs s r)"
proof -
  from layOutDay_h_writesOnly[of s "ArrayRef a"]
  have o: "\<And>r. r < nextObj s \<Longrightarrow> objs (fst (layOutDay_h s (ArrayRef a))) r = objs s r"
    and ar: "\<And>b. b < nextArr s \<Longrightarrow> arrs (fst (layOutDay_h s (ArrayRef a))) b = arrs s b"
    by (simp_all add: writesOnly_def)
  from ar[OF assms(1)] o assms(2) show ?thesis by simp
qed

theorem layOutDay_h_input_unchanged_witness:
  "0 < nextArr callerStore \<and> list_all (\<lambda>r. r < nextObj callerStore) (arrs callerStore 0)
   \<and> arrs callerStore 0 = [0, 1, 2, 3]
   \<and> arrs (fst (layOutDay_h callerStore (ArrayRef 0))) 0 = arrs callerStore 0
   \<and> list_all (\<lambda>r. objs (fst (layOutDay_h callerStore (ArrayRef 0))) r = objs callerStore r)
       (arrs callerStore 0)"
proof -
  have h1: "0 < nextArr callerStore" by (simp add: callerStore_def)
  have h2: "\<forall>r \<in> set (arrs callerStore 0). r < nextObj callerStore"
    by (simp add: callerStore_def)
  have h3: "arrs callerStore 0 = [0, 1, 2, 3]" by (simp add: callerStore_def)
  from layOutDay_h_input_unchanged[OF h1 h2] h1 h2 h3 show ?thesis
    by (simp add: list_all_iff)
qed

text \<open>On that store the records returned are those of \<open>layOutDay\<close> on the same events.\<close>

lemma layOutDay_h_callerStore:
  "snd (layOutDay_h callerStore (ArrayRef 0))
   = layOutDay (JsArray
       [Some \<lparr>ev_id = Num 1, ev_start = 0, ev_end = 120\<rparr>,
        Some \<lparr>ev_id = Num 2, ev_start = 60, ev_end = 180\<rparr>,
        Some \<lparr>ev_id = Num 3, ev_start = 120, ev_end = 240\<rparr>,
        Some \<lparr>ev_id = Num 4, ev_start = 180, ev_end = 240\<rparr>])"
  by code_simp


section \<open>The store and the working arrays as values\<close>

lemma length_load [simp]: "length (load s refs) = length refs"
  by (simp add: load_def)

lemma nth_load [simp]: "k < length refs \<Longrightarrow> load s refs ! k = objs s (refs ! k)"
  by (simp add: load_def)

lemma load_append [simp]: "load s (xs @ ys) = load s xs @ load s ys"
  by (simp add: load_def)

lemma load_setArr [simp]: "load (setArr s c xs) refs = load s refs"
  by (simp add: load_def)

lemma load_setObj:
  assumes "distinct refs" "i < length refs"
  shows "load (setObj s (refs ! i) f) refs = (load s refs)[i := f (load s refs ! i)]"
proof (rule nth_equalityI)
  show "length (load (setObj s (refs ! i) f) refs) = length ((load s refs)[i := f (load s refs ! i)])"
    by simp
next
  fix k assume "k < length (load (setObj s (refs ! i) f) refs)"
  then have k: "k < length refs" by simp
  from assms k have "refs ! k = refs ! i \<longleftrightarrow> k = i" by (simp add: nth_eq_iff_index_eq)
  with k assms(2) show "load (setObj s (refs ! i) f) refs ! k
      = (load s refs)[i := f (load s refs ! i)] ! k"
    by (cases "k = i") (simp_all add: setObj_def)
qed

lemma load_setObj_other:
  "r \<notin> set refs \<Longrightarrow> load (setObj s r f) refs = load s refs"
  by (auto simp: load_def setObj_def)

lemma load_writesOnly:
  "writesOnly R C s s' \<Longrightarrow> set refs \<inter> R = {} \<Longrightarrow> load s' refs = load s refs"
  by (auto simp: load_def writesOnly_def)

subsection \<open>updateCollisions\<close>

lemma objs_updateCollisions_h_reset:
  "objs (updateCollisions_h_reset s refs) r
     = (if r \<in> set refs then (objs s r)\<lparr>collisions := []\<rparr> else objs s r)"
  by (induction s refs arbitrary: r rule: updateCollisions_h_reset.induct)
     (auto simp: setObj_def)

lemma load_updateCollisions_h_reset:
  "load (updateCollisions_h_reset s refs) refs = map (\<lambda>e. e\<lparr>collisions := []\<rparr>) (load s refs)"
  by (simp add: load_def objs_updateCollisions_h_reset)

lemma load_updateCollisions_h_inner:
  assumes "distinct refs" "i < j"
  shows "load (updateCollisions_h_inner s refs i j) refs
       = updateCollisions_inner (load s refs) i j"
  using assms
proof (induction s refs i j rule: updateCollisions_h_inner.induct)
  case (1 s refs i j)
  show ?case
  proof (cases "j < length refs")
    case False
    then show ?thesis
      by (subst updateCollisions_h_inner.simps, subst updateCollisions_inner.simps) simp
  next
    case True
    with "1.prems" have i: "i < length refs" by simp
    define s' where "s' = (if isEventsCollides (objs s (refs ! i)) (objs s (refs ! j))
              then setObj (setObj s (refs ! i) (pushCollision j)) (refs ! j) (pushCollision i)
              else s)"
    define es where "es = load s refs"
    define es' where "es' = (if isEventsCollides (es ! i) (es ! j)
              then (es[i := pushCollision j (es ! i)])
                     [j := pushCollision i ((es[i := pushCollision j (es ! i)]) ! j)]
              else es)"
    have l: "load s' refs = es'"
    proof (cases "isEventsCollides (objs s (refs ! i)) (objs s (refs ! j))")
      case False
      with i True show ?thesis by (simp add: s'_def es'_def es_def)
    next
      case c: True
      have a: "load (setObj s (refs ! i) (pushCollision j)) refs = es[i := pushCollision j (es ! i)]"
        unfolding es_def by (rule load_setObj[OF "1.prems"(1) i])
      have "load (setObj (setObj s (refs ! i) (pushCollision j)) (refs ! j) (pushCollision i)) refs
          = (load (setObj s (refs ! i) (pushCollision j)) refs)
              [j := pushCollision i (load (setObj s (refs ! i) (pushCollision j)) refs ! j)]"
        by (rule load_setObj[OF "1.prems"(1) True])
      with a c i True show ?thesis by (simp add: s'_def es'_def es_def)
    qed
    have h: "updateCollisions_h_inner s refs i j = updateCollisions_h_inner s' refs i (j + 1)"
      unfolding s'_def using True by (subst updateCollisions_h_inner.simps) simp
    have p: "updateCollisions_inner es i j = updateCollisions_inner es' i (j + 1)"
      unfolding es'_def using True by (subst updateCollisions_inner.simps) (simp add: es_def)
    have "load (updateCollisions_h_inner s' refs i (j + 1)) refs
        = updateCollisions_inner (load s' refs) i (j + 1)"
      unfolding s'_def using "1.IH"[OF True "1.prems"(1)] "1.prems"(2) by simp
    with l h p show ?thesis by (simp add: es_def)
  qed
qed

lemma load_updateCollisions_h_outer:
  assumes "distinct refs"
  shows "load (updateCollisions_h_outer s refs i) refs = updateCollisions_outer (load s refs) i"
  using assms
proof (induction s refs i rule: updateCollisions_h_outer.induct)
  case (1 s refs i)
  show ?case
  proof (cases "i < length refs - 1")
    case False
    then show ?thesis
      by (subst updateCollisions_h_outer.simps, subst updateCollisions_outer.simps) simp
  next
    case True
    have a: "load (updateCollisions_h_inner s refs i (i + 1)) refs
        = updateCollisions_inner (load s refs) i (i + 1)"
      by (rule load_updateCollisions_h_inner[OF "1.prems"]) simp
    from "1.IH"[OF True "1.prems"] a True show ?thesis
      by (subst updateCollisions_h_outer.simps, subst updateCollisions_outer.simps) simp
  qed
qed

lemma load_updateCollisions_h:
  "distinct refs \<Longrightarrow> load (updateCollisions_h s refs) refs = updateCollisions (load s refs)"
  by (simp add: updateCollisions_h_def updateCollisions_def load_updateCollisions_h_outer
        load_updateCollisions_h_reset)

lemma load_Nil [simp]: "load s [] = []"
  by (simp add: load_def)

lemma load_Cons [simp]: "load s (x # xs) = objs s x # load s xs"
  by (simp add: load_def)

subsection \<open>setLayOutParams\<close>

lemma load_setLayOutParams_h_inner:
  assumes "distinct refs" "i \<le> length refs"
  shows "load (fst (setLayOutParams_h_inner s refs minLeft width start i left k)) refs
           = fst (setLayOutParams_inner (load s refs) minLeft width start i left k)
       \<and> snd (setLayOutParams_h_inner s refs minLeft width start i left k)
           = snd (setLayOutParams_inner (load s refs) minLeft width start i left k)"
  using assms
proof (induction s refs minLeft width start i left k rule: setLayOutParams_h_inner.induct)
  case (1 s refs minLeft width start i left k)
  show ?case
  proof (cases "k < i")
    case False
    then show ?thesis
      by (subst (1 2) setLayOutParams_h_inner.simps, subst (1 2) setLayOutParams_inner.simps) simp
  next
    case True
    with "1.prems" have k: "k < length refs" by simp
    define es where "es = load s refs"
    define left1 where "left1 = (if k = start \<and> left > ev_left (objs s (refs ! start))
                         then ev_left (objs s (refs ! start)) else left)"
    define s1 where "s1 = setObj s (refs ! k) (\<lambda>e. e\<lparr>ev_width := width\<rparr>)"
    define s2 where "s2 = setObj s1 (refs ! k) (\<lambda>e. e\<lparr>ev_left := max left1 minLeft\<rparr>)"
    define left1' where "left1' = (if k = start \<and> left > ev_left (es ! start)
                         then ev_left (es ! start) else left)"
    define es1 where "es1 = es[k := (es ! k)\<lparr>ev_width := width\<rparr>]"
    define es2 where "es2 = es1[k := (es1 ! k)\<lparr>ev_left := max left1' minLeft\<rparr>]"
    have h: "setLayOutParams_h_inner s refs minLeft width start i left k
        = setLayOutParams_h_inner s2 refs minLeft width start i
                 (left1 + ev_width (objs s2 (refs ! k))) (k + 1)"
      using True
      by (subst setLayOutParams_h_inner.simps) (simp add: Let_def s2_def s1_def left1_def)
    have p: "setLayOutParams_inner es minLeft width start i left k
        = setLayOutParams_inner es2 minLeft width start i (left1' + ev_width (es2 ! k)) (k + 1)"
      using True
      by (subst setLayOutParams_inner.simps) (simp add: Let_def es2_def es1_def left1'_def)
    have ll: "left1' = left1" using k by (cases "k = start") (auto simp: left1'_def left1_def es_def)
    have l1: "load s1 refs = es1" unfolding s1_def es1_def es_def
      by (rule load_setObj[OF "1.prems"(1) k])
    have "load s2 refs = (load s1 refs)[k := (load s1 refs ! k)\<lparr>ev_left := max left1 minLeft\<rparr>]"
      unfolding s2_def by (rule load_setObj[OF "1.prems"(1) k])
    with l1 ll have l2: "load s2 refs = es2" by (simp add: es2_def)
    from l2 k have w: "ev_width (objs s2 (refs ! k)) = ev_width (es2 ! k)"
      by (metis nth_load)
    have IH: "load (fst (setLayOutParams_h_inner s2 refs minLeft width start i
                 (left1 + ev_width (objs s2 (refs ! k))) (k + 1))) refs
           = fst (setLayOutParams_inner (load s2 refs) minLeft width start i
                 (left1 + ev_width (objs s2 (refs ! k))) (k + 1))
       \<and> snd (setLayOutParams_h_inner s2 refs minLeft width start i
                 (left1 + ev_width (objs s2 (refs ! k))) (k + 1))
           = snd (setLayOutParams_inner (load s2 refs) minLeft width start i
                 (left1 + ev_width (objs s2 (refs ! k))) (k + 1))"
      by (rule "1.IH"[OF True left1_def s1_def s2_def "1.prems"])
    show ?thesis unfolding h es_def[symmetric] p using IH by (simp add: l2 ll w)
  qed
qed

lemma load_setLayOutParams_h_loop:
  assumes "distinct refs"
  shows "load (setLayOutParams_h_loop s refs minLeft maxWidth start i) refs
       = setLayOutParams_loop (load s refs) minLeft maxWidth start i"
  using assms
proof (induction s refs minLeft maxWidth start i rule: setLayOutParams_h_loop.induct)
  case (1 s refs minLeft maxWidth start i)
  show ?case
  proof (cases "i < length refs")
    case False
    then show ?thesis
      by (subst setLayOutParams_h_loop_unfold, subst setLayOutParams_loop_unfold) simp
  next
    case lt: True
    define es where "es = load s refs"
    from lt have ci: "collisions (objs s (refs ! i)) = collisions (es ! i)" by (simp add: es_def)
    from lt have lte: "i < length es" by (simp add: es_def)
    show ?thesis
    proof (cases "getLeftCollisionsCount (collisions (objs s (refs ! i))) i = 0")
      case True
      define s' where "s' = setObj s (refs ! i) (\<lambda>e. e\<lparr>ev_left := minLeft, ev_width := maxWidth\<rparr>)"
      have l: "load s' refs = es[i := (es ! i)\<lparr>ev_left := minLeft, ev_width := maxWidth\<rparr>]"
        unfolding s'_def es_def by (rule load_setObj[OF "1.prems" lt])
      have h: "setLayOutParams_h_loop s refs minLeft maxWidth start i
          = setLayOutParams_h_loop s' refs minLeft maxWidth i (i + 1)"
        using lt True unfolding s'_def by (subst setLayOutParams_h_loop_unfold) simp
      from True ci have z: "getLeftCollisionsCount (collisions (es ! i)) i = 0" by simp
      have p: "setLayOutParams_loop es minLeft maxWidth start i
          = setLayOutParams_loop (es[i := (es ! i)\<lparr>ev_left := minLeft, ev_width := maxWidth\<rparr>])
              minLeft maxWidth i (i + 1)"
        using lte z by (subst setLayOutParams_loop_unfold) simp
      have "load (setLayOutParams_h_loop s' refs minLeft maxWidth i (i + 1)) refs
          = setLayOutParams_loop (load s' refs) minLeft maxWidth i (i + 1)"
        unfolding s'_def by (rule "1.IH"(1)[OF lt True "1.prems"])
      with l show ?thesis unfolding h es_def[symmetric] p by simp
    next
      case False
      from False ci have nz: "getLeftCollisionsCount (collisions (es ! i)) i \<noteq> 0" by simp
      from getLeftCollisionsCount_pos[OF nz] lt
      have c0: "collisions (es ! i) ! 0 < length refs" by simp
      define width where "width = divShl0 maxWidth (int i - int start + 1)"
      define left where "left = ev_left (objs s (refs ! (collisions (objs s (refs ! i)) ! 0)))"
      define r where "r = setLayOutParams_h_inner s refs minLeft width start i left start"
      define s' where "s' = setObj (fst r) (refs ! i) (\<lambda>e. e\<lparr>ev_left := snd r, ev_width := width\<rparr>)"
      define r' where "r' = setLayOutParams_inner es minLeft width start i left start"
      define es' where "es' = (fst r')[i := (fst r' ! i)\<lparr>ev_left := snd r', ev_width := width\<rparr>]"
      have "objs s (refs ! (collisions (es ! i) ! 0)) = es ! (collisions (es ! i) ! 0)"
        using c0 by (simp add: es_def)
      then have left': "left = ev_left (es ! (collisions (es ! i) ! 0))"
        unfolding left_def ci by simp
      have h: "setLayOutParams_h_loop s refs minLeft maxWidth start i
          = setLayOutParams_h_loop s' refs minLeft maxWidth start (i + 1)"
        using lt False unfolding s'_def r_def width_def left_def
        by (subst setLayOutParams_h_loop_unfold) (simp add: Let_def)
      have p: "setLayOutParams_loop es minLeft maxWidth start i
          = setLayOutParams_loop es' minLeft maxWidth start (i + 1)"
        using lte nz unfolding es'_def r'_def width_def left'
        by (subst setLayOutParams_loop_unfold) (simp add: Let_def)
      from lt have "i \<le> length refs" by simp
      from load_setLayOutParams_h_inner[OF "1.prems" this, of s minLeft width start left start]
      have rr: "load (fst r) refs = fst r'" "snd r = snd r'"
        by (simp_all add: r_def r'_def es_def)
      have "load s' refs = (load (fst r) refs)[i := (load (fst r) refs ! i)\<lparr>ev_left := snd r,
                ev_width := width\<rparr>]"
        unfolding s'_def by (rule load_setObj[OF "1.prems" lt])
      with rr have l: "load s' refs = es'" by (simp add: es'_def)
      have "load (setLayOutParams_h_loop s' refs minLeft maxWidth start (i + 1)) refs
          = setLayOutParams_loop (load s' refs) minLeft maxWidth start (i + 1)"
        using "1.IH"(2)[OF lt False left_def width_def, of "fst r" "snd r"] "1.prems"
        unfolding s'_def r_def by simp
      with l show ?thesis unfolding h es_def[symmetric] p by simp
    qed
  qed
qed

lemma load_setLayOutParams_h:
  "distinct refs \<Longrightarrow>
   load (setLayOutParams_h s refs minLeft maxWidth) refs
     = setLayOutParams (load s refs) minLeft maxWidth"
  by (simp add: setLayOutParams_h_def setLayOutParams_def load_setLayOutParams_h_loop)

subsection \<open>The sort\<close>

lemma load_insertFromRight_h:
  "load s (insertFromRight_h s x pre) = insertFromRight (objs s x) (load s pre)"
  by (induction s x pre rule: insertFromRight_h.induct) simp_all

lemma load_foldl_insertFromRight_h:
  "load s (foldl (\<lambda>prefix element. insertFromRight_h s element prefix) acc refs)
     = foldl (\<lambda>prefix element. insertFromRight element prefix) (load s acc) (load s refs)"
  by (induction refs arbitrary: acc) (simp_all add: load_insertFromRight_h)

lemma mset_insertFromRight_h [simp]:
  "mset (insertFromRight_h s x pre) = add_mset x (mset pre)"
  by (induction s x pre rule: insertFromRight_h.induct) auto

lemma mset_foldl_insertFromRight_h:
  "mset (foldl (\<lambda>prefix element. insertFromRight_h s element prefix) acc refs)
     = mset acc + mset refs"
  by (induction refs arbitrary: acc) auto

lemma sortEvents_h_load:
  "load (sortEvents_h s c) (arrs (sortEvents_h s c) c) = sortEvents (load s (arrs s c))"
proof -
  have "load s (rev (foldl (\<lambda>prefix element. insertFromRight_h s element prefix) [] (arrs s c)))
      = rev (load s (foldl (\<lambda>prefix element. insertFromRight_h s element prefix) [] (arrs s c)))"
    by (simp add: load_def rev_map)
  then show ?thesis
    by (simp add: sortEvents_h_def sortEvents_def load_foldl_insertFromRight_h)
qed

lemma sortEvents_h_mset: "mset (arrs (sortEvents_h s c) c) = mset (arrs s c)"
  by (simp add: sortEvents_h_def mset_foldl_insertFromRight_h)

lemma sortEvents_h_distinct:
  "distinct (arrs s c) \<Longrightarrow> distinct (arrs (sortEvents_h s c) c)"
  using sortEvents_h_mset[of s c] by (metis mset_eq_imp_distinct_iff)

subsection \<open>cloneEvents\<close>

lemma load_newObject_old:
  "\<forall>r \<in> set refs. r < nextObj s \<Longrightarrow> load (fst (newObject s v)) refs = load s refs"
  by (auto simp: load_def newObject_def)

lemma cloneEvents_h_loop_load:
  assumes "\<forall>r \<in> set refs. r < nextObj s" "\<forall>r \<in> set clonedEvents. r < nextObj s"
    "distinct clonedEvents"
  shows "load (fst (cloneEvents_h_loop s refs clonedEvents)) (snd (cloneEvents_h_loop s refs clonedEvents))
           = load s clonedEvents @ map (\<lambda>w. cloneOf (eventOf w)) (load s refs)
       \<and> distinct (snd (cloneEvents_h_loop s refs clonedEvents))"
  using assms
proof (induction s refs clonedEvents rule: cloneEvents_h_loop.induct)
  case (1 s clonedEvents)
  then show ?case by simp
next
  case (2 s r rest clonedEvents)
  define v where "v = \<lparr>ev_id = ev_id (objs s r), ev_start = ev_start (objs s r),
         ev_end = ev_end (objs s r), ev_left = 0, ev_width = 0,
         collisions = [], hasEventUnder = False, topEventId = None\<rparr>"
  define s1 where "s1 = fst (newObject s v)"
  define r1 where "r1 = snd (newObject s v)"
  have eq: "cloneEvents_h_loop s (r # rest) clonedEvents
      = cloneEvents_h_loop s1 rest (clonedEvents @ [r1])"
    by (simp add: s1_def r1_def v_def split: prod.split)
  have r1: "r1 = nextObj s" and n1: "nextObj s1 = nextObj s + 1" and o1: "objs s1 r1 = v"
    by (simp_all add: r1_def s1_def newObject_def)
  have vc: "v = cloneOf (eventOf (objs s r))" by (simp add: v_def cloneOf_def eventOf_def)
  have p1: "\<forall>x \<in> set rest. x < nextObj s1" using "2.prems"(1) n1 by auto
  have p2: "\<forall>x \<in> set (clonedEvents @ [r1]). x < nextObj s1" using "2.prems"(2) n1 r1 by auto
  have p3: "distinct (clonedEvents @ [r1])" using "2.prems"(2,3) r1 by auto
  have lc: "load s1 clonedEvents = load s clonedEvents"
    unfolding s1_def by (rule load_newObject_old[OF "2.prems"(2)])
  have lr: "load s1 rest = load s rest"
    unfolding s1_def by (rule load_newObject_old) (use "2.prems"(1) in auto)
  have "load (fst (cloneEvents_h_loop s1 rest (clonedEvents @ [r1])))
             (snd (cloneEvents_h_loop s1 rest (clonedEvents @ [r1])))
           = load s1 (clonedEvents @ [r1]) @ map (\<lambda>w. cloneOf (eventOf w)) (load s1 rest)
       \<and> distinct (snd (cloneEvents_h_loop s1 rest (clonedEvents @ [r1])))"
    using "2.IH"[of "fst (newObject s v)" "snd (newObject s v)"] p1 p2 p3
    unfolding s1_def r1_def v_def by simp
  then show ?case unfolding eq by (simp add: lc lr o1 vc)
qed

lemma cloneEvents_h_load:
  assumes "\<forall>r \<in> set (arrs s a). r < nextObj s"
  shows "load (fst (cloneEvents_h s a)) (arrs (fst (cloneEvents_h s a)) (snd (cloneEvents_h s a)))
           = map (\<lambda>w. cloneOf (eventOf w)) (load s (arrs s a))
       \<and> distinct (arrs (fst (cloneEvents_h s a)) (snd (cloneEvents_h s a)))"
proof -
  define l where "l = cloneEvents_h_loop s (arrs s a) []"
  from cloneEvents_h_loop_load[OF assms, of "[]"]
  have a: "load (fst l) (snd l) = map (\<lambda>w. cloneOf (eventOf w)) (load s (arrs s a))"
    and d: "distinct (snd l)" by (simp_all add: l_def)
  have c: "cloneEvents_h s a = newArray (fst l) (snd l)"
    by (simp add: cloneEvents_h_def l_def split: prod.split)
  have "arrs (fst (newArray (fst l) (snd l))) (snd (newArray (fst l) (snd l))) = snd l"
    by (simp add: newArray_def)
  moreover have "load (fst (newArray (fst l) (snd l))) (snd l) = load (fst l) (snd l)"
    by (simp add: newArray_def load_def)
  ultimately show ?thesis unfolding c using a d by simp
qed

subsection \<open>getEventsUnder\<close>

lemma load_splice1: "load s (splice1 refs i) = splice1 (load s refs) i"
  by (simp add: load_def map_splice1)

lemma nth_notin_splice1:
  assumes "distinct xs" "i < length xs"
  shows "xs ! i \<notin> set (splice1 xs i)"
proof -
  from id_take_nth_drop[OF assms(2)] have "xs = take i xs @ xs ! i # drop (Suc i) xs" .
  with assms(1) have "distinct (take i xs @ xs ! i # drop (Suc i) xs)" by simp
  then show ?thesis unfolding splice1_def by auto
qed

lemma getEventsUnder_h_loop_load:
  assumes "distinct (arrs s c @ eventsUnder)"
  shows "(load (fst (getEventsUnder_h_loop s c eventsUnder start i))
               (arrs (fst (getEventsUnder_h_loop s c eventsUnder start i)) c),
          load (fst (getEventsUnder_h_loop s c eventsUnder start i))
               (snd (getEventsUnder_h_loop s c eventsUnder start i)))
           = getEventsUnder_loop (load s (arrs s c)) (load s eventsUnder) start i
       \<and> distinct (arrs (fst (getEventsUnder_h_loop s c eventsUnder start i)) c
                   @ snd (getEventsUnder_h_loop s c eventsUnder start i))"
  using assms
proof (induction s c eventsUnder start i rule: getEventsUnder_h_loop.induct)
  case (1 s c eventsUnder start i)
  define refs where "refs = arrs s c"
  define es where "es = load s refs"
  define under where "under = load s eventsUnder"
  have len: "length es = length refs" by (simp add: es_def)
  show ?case
  proof (cases "i < length refs")
    case False
    then have h: "getEventsUnder_h_loop s c eventsUnder start i = (s, eventsUnder)"
      unfolding refs_def by (subst getEventsUnder_h_loop.simps) simp
    from False len have p: "getEventsUnder_loop es under start i = (es, under)"
      by (subst getEventsUnder_loop_unfold) simp
    from "1.prems" show ?thesis unfolding h
      using p by (simp add: es_def under_def refs_def)
  next
    case lt: True
    then have lte: "i < length es" by (simp add: len)
    have ci: "objs s (refs ! i) = es ! i" using lt by (simp add: es_def)
    show ?thesis
    proof (cases "getLeftCollisionsCount (collisions (es ! i)) i \<noteq> 0")
      case False
      then have h: "getEventsUnder_h_loop s c eventsUnder start i
                   = getEventsUnder_h_loop s c eventsUnder i (i + 1)"
        using lt ci unfolding refs_def by (subst getEventsUnder_h_loop.simps) simp
      from False lte have p: "getEventsUnder_loop es under start i
                   = getEventsUnder_loop es under i (i + 1)"
        by (subst getEventsUnder_loop_unfold) simp
      have z: "\<not> getLeftCollisionsCount (collisions (objs s (arrs s c ! i))) i \<noteq> 0"
        using False ci by (simp add: refs_def)
      from lt have lt': "i < length (arrs s c)" by (simp add: refs_def)
      from "1.IH"(3)[OF lt' z "1.prems"] show ?thesis
        unfolding h using p by (simp add: es_def under_def refs_def)
    next
      case nz: True
      have nz': "getLeftCollisionsCount (collisions (objs s (arrs s c ! i))) i \<noteq> 0"
        using nz ci by (simp add: refs_def)
      from lt have lt': "i < length (arrs s c)" by (simp add: refs_def)
      show ?thesis
      proof (cases "getEventsUnder_inner es i start")
        case None
        then have h: "getEventsUnder_h_loop s c eventsUnder start i
                     = getEventsUnder_h_loop s c eventsUnder start (i + 1)"
          using lt' nz' unfolding es_def refs_def by (subst getEventsUnder_h_loop.simps) simp
        from None nz lte have p: "getEventsUnder_loop es under start i
                     = getEventsUnder_loop es under start (i + 1)"
          by (subst getEventsUnder_loop_unfold) simp
        from None have n': "getEventsUnder_inner (load s (arrs s c)) i start = None"
          by (simp add: es_def refs_def)
        from "1.IH"(1)[OF lt' nz' n' "1.prems"] show ?thesis
          unfolding h using p by (simp add: es_def under_def refs_def)
      next
        case (Some j)
        from getEventsUnder_inner_Some[OF Some] have ji: "j < i" by simp
        define temp where "temp = arrs s c ! i"
        define leftEvent where "leftEvent = arrs s c ! j"
        define s1 where "s1 = setArr s c (splice1 (arrs s c) i)"
        define s2 where "s2 = setObj s1 temp (\<lambda>e. e\<lparr>topEventId := Some (ev_id (objs s1 leftEvent))\<rparr>)"
        define s3 where "s3 = setObj s2 leftEvent (\<lambda>e. e\<lparr>hasEventUnder := True\<rparr>)"
        define s4 where "s4 = updateCollisions_h s3 (arrs s3 c)"
        define refs' where "refs' = splice1 refs i"
        from Some have s': "getEventsUnder_inner (load s (arrs s c)) i start = Some j"
          by (simp add: es_def refs_def)
        have h: "getEventsUnder_h_loop s c eventsUnder start i
                     = getEventsUnder_h_loop s4 c (eventsUnder @ [temp]) start i"
          using lt' nz' s' unfolding s4_def s3_def s2_def s1_def leftEvent_def temp_def
          by (subst getEventsUnder_h_loop.simps) (simp add: Let_def)
        from Some nz lte have p: "getEventsUnder_loop es under start i
                     = getEventsUnder_loop (moveUnder es i j)
                         (under @ [(es ! i)\<lparr>topEventId := Some (ev_id (es ! j))\<rparr>]) start i"
          by (subst getEventsUnder_loop_unfold) simp
        from "1.prems" have dr: "distinct refs" and du: "distinct eventsUnder"
          and dj: "set refs \<inter> set eventsUnder = {}" by (auto simp: refs_def)
        have dr': "distinct refs'" unfolding refs'_def using dr by (rule distinct_splice1)
        have sub: "set refs' \<subseteq> set refs" unfolding refs'_def by (rule set_splice1)
        have tn: "temp \<notin> set refs'" unfolding temp_def refs'_def refs_def[symmetric]
          by (rule nth_notin_splice1[OF dr lt])
        have tr: "temp \<in> set refs" using lt by (simp add: temp_def refs_def)
        have tu: "temp \<notin> set eventsUnder" using tr dj by auto
        have jl': "j < length refs'" using ji lt by (simp add: refs'_def length_splice1)
        have lj: "leftEvent = refs' ! j" using ji lt
          by (simp add: leftEvent_def refs'_def refs_def nth_splice1_below)
        have ljr: "leftEvent \<in> set refs'" using lj jl' by simp
        have lu: "leftEvent \<notin> set (eventsUnder @ [temp])" using ljr sub dj tn by auto
        have a1: "arrs s1 c = refs'" by (simp add: s1_def refs'_def refs_def)
        have a3: "arrs s3 c = refs'" by (simp add: s3_def s2_def a1)
        have a4: "arrs s4 c = refs'" by (simp add: s4_def a3)
        have o1: "objs s1 = objs s" by (simp add: s1_def)
        have l1: "load s1 refs' = splice1 es i"
          by (simp add: s1_def refs'_def load_splice1 es_def)
        have l2: "load s2 refs' = splice1 es i" unfolding s2_def using tn l1
          by (simp add: load_setObj_other)
        have "load s3 refs' = (load s2 refs')[j := (load s2 refs' ! j)\<lparr>hasEventUnder := True\<rparr>]"
          unfolding s3_def lj by (rule load_setObj[OF dr' jl'])
        then have l3: "load s3 refs' = (splice1 es i)[j := (splice1 es i ! j)\<lparr>hasEventUnder := True\<rparr>]"
          by (simp add: l2)
        have l4: "load s4 refs' = moveUnder es i j"
          unfolding s4_def a3 moveUnder_def by (simp add: load_updateCollisions_h[OF dr'] l3)
        have w4: "writesOnly (set refs') {} s3 s4" unfolding s4_def a3
          by (rule writesOnly_updateCollisions_h) simp
        have dis: "set (eventsUnder @ [temp]) \<inter> set refs' = {}" using sub dj tn by auto
        have "load s4 (eventsUnder @ [temp]) = load s3 (eventsUnder @ [temp])"
          by (rule load_writesOnly[OF w4 dis])
        also have "\<dots> = load s2 (eventsUnder @ [temp])"
          unfolding s3_def by (rule load_setObj_other[OF lu])
        also have "\<dots> = load s1 eventsUnder
              @ [(objs s1 temp)\<lparr>topEventId := Some (ev_id (objs s1 leftEvent))\<rparr>]"
          using tu by (simp add: s2_def load_setObj_other) (simp add: setObj_def)
        also have "\<dots> = under @ [(es ! i)\<lparr>topEventId := Some (ev_id (es ! j))\<rparr>]"
          using lt ji by (simp add: o1 under_def temp_def leftEvent_def es_def refs_def s1_def)
        finally have lu4: "load s4 (eventsUnder @ [temp])
            = under @ [(es ! i)\<lparr>topEventId := Some (ev_id (es ! j))\<rparr>]" .
        have d4: "distinct (arrs s4 c @ (eventsUnder @ [temp]))"
          using dr' du dis tu by (auto simp: a4)
        have IH: "(load (fst (getEventsUnder_h_loop s4 c (eventsUnder @ [temp]) start i))
               (arrs (fst (getEventsUnder_h_loop s4 c (eventsUnder @ [temp]) start i)) c),
          load (fst (getEventsUnder_h_loop s4 c (eventsUnder @ [temp]) start i))
               (snd (getEventsUnder_h_loop s4 c (eventsUnder @ [temp]) start i)))
           = getEventsUnder_loop (load s4 (arrs s4 c)) (load s4 (eventsUnder @ [temp])) start i
       \<and> distinct (arrs (fst (getEventsUnder_h_loop s4 c (eventsUnder @ [temp]) start i)) c
                   @ snd (getEventsUnder_h_loop s4 c (eventsUnder @ [temp]) start i))"
          by (rule "1.IH"(2)[OF lt' nz' s' temp_def leftEvent_def s1_def s2_def s3_def s4_def d4])
        show ?thesis unfolding h
          using IH p by (simp only: a4 l4 lu4 es_def[symmetric] under_def[symmetric] refs_def[symmetric])
      qed
    qed
  qed
qed

lemma getEventsUnder_h_load:
  assumes "distinct (arrs s c)"
  shows "(load (fst (getEventsUnder_h s c)) (arrs (fst (getEventsUnder_h s c)) c),
          load (fst (getEventsUnder_h s c)) (snd (getEventsUnder_h s c)))
           = getEventsUnder (load s (arrs s c))
       \<and> distinct (arrs (fst (getEventsUnder_h s c)) c @ snd (getEventsUnder_h s c))"
proof -
  define r where "r = getEventsUnder_h_loop s c [] 0 0"
  define s1 where "s1 = fst r"
  define u where "u = snd r"
  from getEventsUnder_h_loop_load[of s c "[]" 0 0] assms
  have l: "getEventsUnder_loop (load s (arrs s c)) [] 0 0 = (load s1 (arrs s1 c), load s1 u)"
    and d: "distinct (arrs s1 c @ u)" by (simp_all add: r_def s1_def u_def)
  have g: "getEventsUnder_h s c = (if u \<noteq> [] then updateCollisions_h s1 u else s1, u)"
    by (simp add: getEventsUnder_h_def r_def s1_def u_def split: prod.split)
  have p: "getEventsUnder (load s (arrs s c))
      = (load s1 (arrs s1 c), if load s1 u \<noteq> [] then updateCollisions (load s1 u) else load s1 u)"
    by (simp add: getEventsUnder_def l)
  show ?thesis
  proof (cases "u = []")
    case True
    with g p d show ?thesis by simp
  next
    case False
    from d have du: "distinct u" and dis: "set (arrs s1 c) \<inter> set u = {}" by auto
    have w: "writesOnly (set u) {} s1 (updateCollisions_h s1 u)"
      by (rule writesOnly_updateCollisions_h) simp
    have a: "load (updateCollisions_h s1 u) (arrs s1 c) = load s1 (arrs s1 c)"
      by (rule load_writesOnly[OF w dis])
    have b: "load (updateCollisions_h s1 u) u = updateCollisions (load s1 u)"
      by (rule load_updateCollisions_h[OF du])
    from False have ne: "load s1 u \<noteq> []" by (simp add: load_def)
    from False g p d a b ne show ?thesis by simp
  qed
qed

subsection \<open>processEventsUnder\<close>

lemma itemsOk_updateGroup:
  assumes "itemsOk n gs"
    and "\<forall>g. distinct (items g) \<and> (\<forall>k \<in> set (items g). k < n)
           \<longrightarrow> distinct (items (f g)) \<and> (\<forall>k \<in> set (items (f g)). k < m)"
    and "n \<le> m"
  shows "itemsOk m (updateGroup t f gs)"
  unfolding itemsOk_def
proof (intro ballI)
  fix g assume g: "g \<in> snd ` set (updateGroup t f gs)"
  from g snd_set_updateGroup[of t f gs] consider "g \<in> snd ` set gs"
    | g0 where "g0 \<in> snd ` set gs" "g = f g0" by blast
  then show "distinct (items g) \<and> (\<forall>k \<in> set (items g). k < m)"
  proof cases
    case 1
    with assms(1,3) show ?thesis unfolding itemsOk_def by fastforce
  next
    case 2
    with assms(1,2) show ?thesis unfolding itemsOk_def by blast
  qed
qed

lemma itemsOk_step:
  assumes "itemsOk i groups" "\<forall>g. items (f g) = items g"
  shows "itemsOk (Suc i) (updateGroup t f (joinGroup es groups t k i))"
proof -
  have a: "itemsOk i (if map_of groups t = None
        then groups @ [(t, \<lparr>items = [], g_left = ev_left (es ! k), g_width = ev_width (es ! k)\<rparr>)]
        else groups)"
    using assms(1) by (auto simp: itemsOk_def)
  have "itemsOk (Suc i) (joinGroup es groups t k i)" unfolding joinGroup_def
    by (rule itemsOk_updateGroup[OF a]) auto
  then show ?thesis
    by (rule itemsOk_updateGroup) (use assms(2) in auto)
qed

lemma itemsOk_mono: "itemsOk n groups \<Longrightarrow> n \<le> m \<Longrightarrow> itemsOk m groups"
  unfolding itemsOk_def by fastforce

lemma processEventsUnder_loop_itemsOk:
  assumes "itemsOk i groups"
    and "processEventsUnder_loop eventsUnder es eventIdxById groups i = Inr groups'"
  shows "itemsOk (max i (length eventsUnder)) groups'"
  using assms
proof (induction eventsUnder es eventIdxById groups i rule: processEventsUnder_loop.induct)
  case (1 eventsUnder es eventIdxById groups i)
  show ?case
  proof (cases "i < length eventsUnder")
    case False
    with "1.prems" have "groups' = groups"
      by (subst (asm) processEventsUnder_loop.simps) simp
    with False "1.prems"(1) show ?thesis by (simp add: max_def)
  next
    case True
    from "1.prems"(2) True obtain g1 where
      st: "processEventsUnder_step eventsUnder es eventIdxById groups i = Inr g1"
      and rest: "processEventsUnder_loop eventsUnder es eventIdxById g1 (i + 1) = Inr groups'"
      by (subst (asm) processEventsUnder_loop.simps) (auto split: sum.splits)
    from processEventsUnder_step_Inr[OF st] obtain t k f where
      g1: "g1 = updateGroup t f (joinGroup es groups t k i)" and f: "\<forall>g. items (f g) = items g"
      by blast
    have "itemsOk (i + 1) g1" unfolding g1 using itemsOk_step[OF "1.prems"(1) f] by simp
    from "1.IH"[OF True st this rest] True show ?thesis by (simp add: max_def)
  qed
qed

lemma length_writeBack [simp]: "length (writeBack xs ks vs) = length xs"
  by (induction xs ks vs rule: writeBack.induct) simp_all

lemma writeBack_nth:
  assumes "distinct ks" "\<forall>k \<in> set ks. k < length xs" "length vs = length ks"
  shows "(\<forall>n<length ks. writeBack xs ks vs ! (ks ! n) = vs ! n)
       \<and> (\<forall>m. m \<notin> set ks \<longrightarrow> writeBack xs ks vs ! m = xs ! m)"
  using assms
proof (induction xs ks vs rule: writeBack.induct)
  case (1 xs k ks e es)
  from "1.prems" have d: "distinct ks" and kn: "k \<notin> set ks"
    and r: "\<forall>x \<in> set ks. x < length (xs[k := e])" and l: "length es = length ks"
    and kl: "k < length xs" by auto
  from "1.IH"[OF d r l] have
    a: "\<forall>n<length ks. writeBack (xs[k := e]) ks es ! (ks ! n) = es ! n"
    and b: "\<forall>m. m \<notin> set ks \<longrightarrow> writeBack (xs[k := e]) ks es ! m = xs[k := e] ! m" by auto
  show ?case
  proof (intro conjI allI impI)
    fix n assume n: "n < length (k # ks)"
    show "writeBack xs (k # ks) (e # es) ! ((k # ks) ! n) = (e # es) ! n"
    proof (cases n)
      case 0
      with b kn kl show ?thesis by simp
    next
      case (Suc n')
      with n a show ?thesis by simp
    qed
  next
    fix m assume "m \<notin> set (k # ks)"
    with b show "writeBack xs (k # ks) (e # es) ! m = xs ! m" by simp
  qed
qed simp_all

lemma load_writeBack:
  assumes du: "distinct u" and di: "distinct ks" and kr: "\<forall>k \<in> set ks. k < length u"
    and lv: "length vs = length ks"
    and l: "load s' (map (\<lambda>k. u ! k) ks) = vs"
    and w: "writesOnly (set (map (\<lambda>k. u ! k) ks)) C s s'"
  shows "load s' u = writeBack (load s u) ks vs"
proof (rule nth_equalityI)
  show "length (load s' u) = length (writeBack (load s u) ks vs)" by simp
next
  fix m assume "m < length (load s' u)"
  then have m: "m < length u" by simp
  from kr have kr': "\<forall>k \<in> set ks. k < length (load s u)" by simp
  from writeBack_nth[OF di kr' lv] have
    a: "\<forall>n<length ks. writeBack (load s u) ks vs ! (ks ! n) = vs ! n"
    and b: "\<forall>x. x \<notin> set ks \<longrightarrow> writeBack (load s u) ks vs ! x = load s u ! x" by auto
  show "load s' u ! m = writeBack (load s u) ks vs ! m"
  proof (cases "m \<in> set ks")
    case True
    then obtain n where n: "n < length ks" "ks ! n = m" by (auto simp: in_set_conv_nth)
    from l n have "objs s' (u ! m) = vs ! n"
      by (metis length_map nth_load nth_map)
    moreover from a n have "writeBack (load s u) ks vs ! m = vs ! n" by blast
    ultimately show ?thesis using m by simp
  next
    case False
    have "u ! m \<notin> set (map (\<lambda>k. u ! k) ks)"
    proof
      assume "u ! m \<in> set (map (\<lambda>k. u ! k) ks)"
      then obtain k where k: "k \<in> set ks" "u ! k = u ! m" by auto
      with kr have "k < length u" by simp
      with k m du have "k = m" by (simp add: nth_eq_iff_index_eq)
      with k False show False by simp
    qed
    with w have "objs s' (u ! m) = objs s (u ! m)" by (simp add: writesOnly_def)
    with b False m show ?thesis by simp
  qed
qed

lemma layOutGroups_h_load:
  assumes "distinct u" "itemsOk (length u) groups"
  shows "load (layOutGroups_h groups u s) u = layOutGroups groups (load s u)"
  using assms
proof (induction groups u s rule: layOutGroups_h.induct)
  case (1 u s)
  then show ?case by simp
next
  case (2 key g rest u s)
  from "2.prems"(2) have di: "distinct (items g)" and kr: "\<forall>k \<in> set (items g). k < length u"
    and r: "itemsOk (length u) rest" by (auto simp: itemsOk_def)
  define refs where "refs = map (\<lambda>k. u ! k) (items g)"
  define s1 where "s1 = setLayOutParams_h s refs (g_left g) (g_width g)"
  define laid where "laid = setLayOutParams (map (\<lambda>k. load s u ! k) (items g)) (g_left g) (g_width g)"
  have dr: "distinct refs" unfolding refs_def
  proof (subst distinct_map, intro conjI)
    show "distinct (items g)" by (rule di)
    show "inj_on (\<lambda>k. u ! k) (set (items g))"
      using kr "2.prems"(1) by (auto simp: inj_on_def nth_eq_iff_index_eq)
  qed
  have lr: "load s refs = map (\<lambda>k. load s u ! k) (items g)"
    using kr by (simp add: refs_def load_def)
  have l1: "load s1 refs = laid"
    unfolding s1_def laid_def by (simp add: load_setLayOutParams_h[OF dr] lr)
  have w1: "writesOnly (set refs) {} s s1" unfolding s1_def
    by (rule writesOnly_setLayOutParams_h) simp
  have lv: "length laid = length (items g)" by (simp add: laid_def)
  have "load s1 u = writeBack (load s u) (items g) laid"
    by (rule load_writeBack[OF "2.prems"(1) di kr lv l1[unfolded refs_def] w1[unfolded refs_def]])
  moreover have "load (layOutGroups_h rest u s1) u = layOutGroups rest (load s1 u)"
    using "2.IH"[OF "2.prems"(1) r] by (simp add: s1_def refs_def)
  ultimately show ?case by (simp add: s1_def refs_def laid_def)
qed

lemma itemsOk_itemsBelow: "itemsOk n groups \<Longrightarrow> itemsBelow n groups"
  by (simp add: itemsOk_def itemsBelow_def)

lemma arrs_writesOnly: "writesOnly R {} s s' \<Longrightarrow> arrs s' = arrs s"
  by (auto simp: writesOnly_def)

lemma processEventsUnder_h_load:
  assumes "distinct (refs @ u)"
  shows "(case processEventsUnder_h s u refs of
            Inl err \<Rightarrow> processEventsUnder (load s u) (load s refs) = Inl err
          | Inr s' \<Rightarrow> processEventsUnder (load s u) (load s refs) = Inr (load s' u)
                      \<and> load s' refs = load s refs \<and> arrs s' = arrs s)"
proof (cases "processEventsUnder_loop (load s u) (load s refs)
             (eventIdxById_loop (load s refs) 0 Map.empty) [] 0")
  case (Inl err)
  then show ?thesis by (simp add: processEventsUnder_h_def processEventsUnder_def)
next
  case (Inr groups)
  from assms have du: "distinct u" and dis: "set refs \<inter> set u = {}" by auto
  have "itemsOk 0 []" by (simp add: itemsOk_def)
  from processEventsUnder_loop_itemsOk[OF this Inr] have ok: "itemsOk (length u) groups" by simp
  define s' where "s' = layOutGroups_h groups u s"
  have a: "load s' u = layOutGroups groups (load s u)"
    unfolding s'_def by (rule layOutGroups_h_load[OF du ok])
  have w: "writesOnly (set u) {} s s'" unfolding s'_def
    by (rule writesOnly_layOutGroups_h[OF _ itemsOk_itemsBelow[OF ok]]) simp
  have b: "load s' refs = load s refs" by (rule load_writesOnly[OF w dis])
  have c: "arrs s' = arrs s" by (rule arrs_writesOnly[OF w])
  from Inr a b c show ?thesis
    by (simp add: processEventsUnder_h_def processEventsUnder_def s'_def)
qed

text \<open>
  On a store in which the events of the array are in use, the layout on the store
  returns what \<open>layOutDay\<close> returns on the events that the array refers to.
\<close>

lemma layOutDay_h_layOutDay:
  assumes "\<forall>r \<in> set (arrs s a). r < nextObj s"
  shows "snd (layOutDay_h s (ArrayRef a))
       = layOutDay (JsArray (map (\<lambda>r. Some (eventOf (objs s r))) (arrs s a)))"
proof -
  define xs where "xs = map (\<lambda>r. Some (eventOf (objs s r))) (arrs s a)"
  define s1 where "s1 = fst (cloneEvents_h s a)"
  define c where "c = snd (cloneEvents_h s a)"
  define s2 where "s2 = sortEvents_h s1 c"
  define s3 where "s3 = updateCollisions_h s2 (arrs s2 c)"
  define s4 where "s4 = fst (getEventsUnder_h s3 c)"
  define u where "u = snd (getEventsUnder_h s3 c)"
  define s5 where "s5 = setLayOutParams_h s4 (arrs s4 c) MIN_LEFT MAX_WIDTH"
  define es0 where "es0 = cloneEvents_loop xs []"
  define es1 where "es1 = fst (getEventsUnder (updateCollisions (sortEvents es0)))"
  define under where "under = snd (getEventsUnder (updateCollisions (sortEvents es0)))"
  define es2 where "es2 = setLayOutParams es1 MIN_LEFT MAX_WIDTH"
  have "xs = map Some (map (\<lambda>r. eventOf (objs s r)) (arrs s a))" by (simp add: xs_def)
  then have e0: "es0 = map cloneOf (map (\<lambda>r. eventOf (objs s r)) (arrs s a))"
    unfolding es0_def cloneEvents_loop_eq by (simp only: truthyPrefix_Some append_Nil)
  from cloneEvents_h_load[OF assms] have l1: "load s1 (arrs s1 c) = es0"
    and d1: "distinct (arrs s1 c)" by (simp_all add: s1_def c_def e0 load_def comp_def)
  have l2: "load s2 (arrs s2 c) = sortEvents es0" unfolding s2_def
    by (simp add: sortEvents_h_load l1)
  have d2: "distinct (arrs s2 c)" unfolding s2_def by (rule sortEvents_h_distinct[OF d1])
  have a3: "arrs s3 = arrs s2" by (simp add: s3_def)
  have "load s3 (arrs s2 c) = updateCollisions (sortEvents es0)"
    unfolding s3_def by (simp add: load_updateCollisions_h[OF d2] l2)
  then have l3: "load s3 (arrs s3 c) = updateCollisions (sortEvents es0)" by (simp only: a3)
  from d2 a3 have d3: "distinct (arrs s3 c)" by simp
  from getEventsUnder_h_load[OF d3]
  have g: "getEventsUnder (updateCollisions (sortEvents es0)) = (load s4 (arrs s4 c), load s4 u)"
    and d4: "distinct (arrs s4 c @ u)" by (simp_all add: s4_def u_def l3)
  from g have l4: "load s4 (arrs s4 c) = es1" and lu4: "load s4 u = under"
    by (simp_all add: es1_def under_def)
  from d4 have dc4: "distinct (arrs s4 c)" and dis4: "set u \<inter> set (arrs s4 c) = {}" by auto
  have w5: "writesOnly (set (arrs s4 c)) {} s4 s5" unfolding s5_def
    by (rule writesOnly_setLayOutParams_h) simp
  have a5: "arrs s5 = arrs s4" by (rule arrs_writesOnly[OF w5])
  have "load s5 (arrs s4 c) = es2"
    unfolding s5_def es2_def by (simp add: load_setLayOutParams_h[OF dc4] l4)
  then have l5: "load s5 (arrs s5 c) = es2" by (simp only: a5)
  have lu5: "load s5 u = under" using load_writesOnly[OF w5 dis4] lu4 by simp
  from d4 a5 have d5: "distinct (arrs s5 c @ u)" by simp
  have h: "layOutDay_h s (ArrayRef a) =
     (case processEventsUnder_h s5 u (arrs s5 c) of
        Inl err \<Rightarrow> (s5, Inl err)
      | Inr s6 \<Rightarrow> (s6, Inr (normalizeEvents (load s6 (arrs s6 c @ u)))))"
    unfolding layOutDay_h_def s5_def u_def s4_def s3_def s2_def c_def s1_def Let_def
    by (simp add: case_prod_unfold)
  have pu: "primaryAndUnder xs = (es2, under)"
    by (simp add: primaryAndUnder_def es2_def es1_def under_def es0_def case_prod_unfold)
  have p: "layOutDay (JsArray xs) =
     (case processEventsUnder under es2 of
        Inl err \<Rightarrow> Inl err
      | Inr eventsUnder' \<Rightarrow> Inr (normalizeEvents (es2 @ eventsUnder')))"
    by (simp add: layOutDay_array_eq pu cong: sum.case_cong)
  from processEventsUnder_h_load[OF d5, of s5] have
    r: "(case processEventsUnder_h s5 u (arrs s5 c) of
            Inl err \<Rightarrow> processEventsUnder under es2 = Inl err
          | Inr s' \<Rightarrow> processEventsUnder under es2 = Inr (load s' u)
                      \<and> load s' (arrs s5 c) = es2 \<and> arrs s' = arrs s5)"
    unfolding lu5 l5 .
  show ?thesis
  proof (cases "processEventsUnder_h s5 u (arrs s5 c)")
    case (Inl err)
    with r h p show ?thesis by (simp add: xs_def)
  next
    case (Inr s6)
    with r have "processEventsUnder under es2 = Inr (load s6 u)"
      "load s6 (arrs s5 c) = es2" "arrs s6 = arrs s5" by simp_all
    with Inr h p show ?thesis by (simp add: xs_def)
  qed
qed

end
